theory Spec2Isabelle
  imports Main
begin

section \<open>Data model of graph.cpp\<close>

text \<open>
  \<^verbatim>\<open>struct Edge { int weight; int to; };\<close>
  \<^verbatim>\<open>struct Vertex { int indegree; int outdegree; vector<Edge*> neighbors; };\<close>
  Every edge is allocated by \<open>add_edge\<close> and owned by exactly one neighbour list, so
  the pointers are modelled by the edges themselves. The counters are C++ \<open>int\<close>;
  they are modelled as unbounded integers: leaving the 32-bit range takes \<open>2^31\<close>
  increments or decrements of one counter.
\<close>

record Edge =
  weight :: int
  to :: int

record Vertex =
  indegree :: int
  outdegree :: int
  neighbors :: "Edge list"

text \<open>What the traversals insert into \<open>cout\<close>, one item per \<open><<\<close>.\<close>

datatype out = Num int | Chr char | Str string

text \<open>
  The four ways the code writes the two visitation bitsets: \<open>_discovered[i] = true\<close>,
  \<open>_processed[i] = true\<close>, \<open>_discovered.reset()\<close> and \<open>_processed.reset()\<close>.
\<close>

datatype bit_write = Discover nat | Process nat | ResetDiscovered | ResetProcessed

text \<open>
  The members of \<open>class Graph\<close>. A \<open>vector\<close> is the list of its elements (its
  \<open>size()\<close> is the length of the list); a \<open>bitset<MAX_VERTEX+1>\<close> is the set of the
  positions whose bit is set; \<open>size_t\<close> is \<open>nat\<close>. Two fields are not members of the
  class: \<open>cout\<close> is the text written to the output stream so far, and \<open>trail\<close> is the
  sequence of bitset writes executed so far, kept so that properties of the bitsets can
  be stated at every point of an execution and not only when an operation returns.
\<close>

record graph =
  vertex :: "Vertex list"
  parent :: "int list"
  discovered :: "nat set"
  processed :: "nat set"
  nvertex :: nat
  directed :: bool
  cout :: "out list"
  trail :: "bit_write list"

definition MAX_VERTEX :: nat where
  "MAX_VERTEX = 10000"

text \<open>
  Neither \<open>vector::operator[]\<close> nor \<open>bitset::operator[]\<close> checks its index; an index
  outside the container is undefined behaviour. The model stops there with an error.
  An \<open>int\<close> index is converted to \<open>size_t\<close>, which sends a negative index far above
  every size.
\<close>

datatype error = OutOfBounds

definition in_vector :: "int \<Rightarrow> 'a list \<Rightarrow> bool" where
  "in_vector i xs \<longleftrightarrow> 0 \<le> i \<and> nat i < length xs"

definition in_bitset :: "int \<Rightarrow> bool" where
  "in_bitset i \<longleftrightarrow> 0 \<le> i \<and> nat i \<le> MAX_VERTEX"

definition set_discovered :: "nat \<Rightarrow> graph \<Rightarrow> graph" where
  "set_discovered i g = g\<lparr>discovered := insert i (discovered g), trail := trail g @ [Discover i]\<rparr>"

definition set_processed :: "nat \<Rightarrow> graph \<Rightarrow> graph" where
  "set_processed i g = g\<lparr>processed := insert i (processed g), trail := trail g @ [Process i]\<rparr>"

definition reset_discovered :: "graph \<Rightarrow> graph" where
  "reset_discovered g = g\<lparr>discovered := {}, trail := trail g @ [ResetDiscovered]\<rparr>"

definition reset_processed :: "graph \<Rightarrow> graph" where
  "reset_processed g = g\<lparr>processed := {}, trail := trail g @ [ResetProcessed]\<rparr>"

definition print :: "out list \<Rightarrow> graph \<Rightarrow> graph" where
  "print xs g = g\<lparr>cout := cout g @ xs\<rparr>"

section \<open>Construction and mutation\<close>

text \<open>
  \<open>vector::reserve\<close> changes the capacity of a vector and leaves its size and its
  elements as they are.
\<close>

definition reserve :: "nat \<Rightarrow> 'a list \<Rightarrow> 'a list" where
  "reserve n xs = xs"

text \<open>
  The body of the constructor's loop at index \<open>i\<close>:
  \<^verbatim>\<open>_vertex[i].indegree = _vertex[i].outdegree = 0; _parent[i] = -1;\<close>
\<close>

definition init_entry :: "nat \<Rightarrow> graph \<Rightarrow> error + graph" where
  "init_entry i g =
     (if \<not> in_vector (int i) (vertex g) then Inl OutOfBounds
      else let g1 = g\<lparr>vertex := (vertex g)[i := (vertex g ! i)\<lparr>indegree := 0, outdegree := 0\<rparr>]\<rparr>
        in if \<not> in_vector (int i) (parent g1) then Inl OutOfBounds
           else Inr (g1\<lparr>parent := (parent g1)[i := - 1]\<rparr>))"

fun init_loop :: "nat list \<Rightarrow> graph \<Rightarrow> error + graph" where
  "init_loop [] g = Inr g"
| "init_loop (i # is) g =
     (case init_entry i g of Inl e \<Rightarrow> Inl e | Inr g' \<Rightarrow> init_loop is g')"

text \<open>
  \<^verbatim>\<open>Graph(size_t n, bool directed)\<close>: both vectors start empty and are only
  reserved; the loop runs over \<open>0 .. _vertex.size() - 1\<close>; the bitsets start all zero.
\<close>

definition Graph :: "nat \<Rightarrow> bool \<Rightarrow> error + graph" where
  "Graph n d =
     (let g = \<lparr>vertex = reserve (n + 1) [], parent = reserve (n + 1) [],
               discovered = {}, processed = {}, nvertex = n, directed = d,
               cout = [], trail = []\<rparr>
      in init_loop [0 ..< length (vertex g)] g)"

text \<open>
  The state the constructor's loop body would leave if both vectors held \<open>n + 1\<close>
  elements: \<open>n + 1\<close> vertices with zero counters and no edges, every parent \<open>-1\<close>.
  The algorithms below index \<open>_vertex\<close> and \<open>_parent\<close> at \<open>1 .. n\<close>, so their
  behaviour is studied on graphs built from this state.
\<close>

definition sized_graph :: "nat \<Rightarrow> bool \<Rightarrow> graph" where
  "sized_graph n d =
     \<lparr>vertex = replicate (n + 1) \<lparr>indegree = 0, outdegree = 0, neighbors = []\<rparr>,
      parent = replicate (n + 1) (- 1),
      discovered = {}, processed = {}, nvertex = n, directed = d,
      cout = [], trail = []\<rparr>"

text \<open>\<^verbatim>\<open>void add_edge(int x, int y, int weight)\<close>\<close>

definition add_edge :: "int \<Rightarrow> int \<Rightarrow> int \<Rightarrow> graph \<Rightarrow> error + graph" where
  "add_edge x y w g =
     (if \<not> in_vector x (vertex g) then Inl OutOfBounds
      else
        let e = \<lparr>weight = w, to = y\<rparr>;
            vx = vertex g ! nat x;
            g1 = g\<lparr>vertex := (vertex g)[nat x := vx\<lparr>neighbors := neighbors vx @ [e]\<rparr>]\<rparr>
        in if directed g1 then
             let vx1 = vertex g1 ! nat x;
                 g2 = g1\<lparr>vertex := (vertex g1)[nat x := vx1\<lparr>outdegree := outdegree vx1 + 1\<rparr>]\<rparr>
             in if \<not> in_vector y (vertex g2) then Inl OutOfBounds
                else
                  let vy = vertex g2 ! nat y
                  in Inr (g2\<lparr>vertex := (vertex g2)[nat y := vy\<lparr>indegree := indegree vy + 1\<rparr>]\<rparr>)
           else Inr g1)"

text \<open>
  \<^verbatim>\<open>read_graph\<close> calls \<open>add_edge(x, y, 0)\<close> for each pair read, and \<open>add_edge(y, x, 0)\<close>
  as well when the graph is undirected. Here the pairs are given as a list.
\<close>

fun read_graph :: "(int \<times> int) list \<Rightarrow> graph \<Rightarrow> error + graph" where
  "read_graph [] g = Inr g"
| "read_graph ((x, y) # ps) g =
     (case add_edge x y 0 g of
        Inl e \<Rightarrow> Inl e
      | Inr g1 \<Rightarrow>
          if \<not> directed g1 then
            (case add_edge y x 0 g1 of Inl e \<Rightarrow> Inl e | Inr g2 \<Rightarrow> read_graph ps g2)
          else read_graph ps g1)"

section \<open>Depth-first traversal\<close>

function do_dfs :: "int \<Rightarrow> graph \<Rightarrow> error + graph"
  and do_dfs_edges :: "Edge list \<Rightarrow> graph \<Rightarrow> error + graph" where
  "do_dfs v g =
     (if \<not> in_bitset v then Inl OutOfBounds
      else if nat v \<notin> discovered g then
        let g1 = print [Num v, Chr (CHR '' '')] (set_discovered (nat v) g)
        in if \<not> in_vector v (vertex g1) then Inl OutOfBounds
           else (case do_dfs_edges (neighbors (vertex g1 ! nat v)) g1 of
                   Inl err \<Rightarrow> Inl err
                 | Inr g2 \<Rightarrow> Inr (set_processed (nat v) g2))
      else Inr g)"
| "do_dfs_edges [] g = Inr g"
| "do_dfs_edges (e # es) g =
     (case do_dfs (to e) g of Inl err \<Rightarrow> Inl err | Inr g1 \<Rightarrow> do_dfs_edges es g1)"
  by pat_completeness auto

text \<open>
  The recursion of \<open>do_dfs\<close> ends because every call that goes on sets a bit of
  \<open>_discovered\<close> that was clear, and the bitset has \<open>MAX_VERTEX + 1\<close> bits: the number
  of clear bits is the measure.
\<close>

definition undiscovered :: "graph \<Rightarrow> nat" where
  "undiscovered g = card ({.. MAX_VERTEX} - discovered g)"

lemma undiscovered_mono: "discovered g \<subseteq> discovered g' \<Longrightarrow> undiscovered g' \<le> undiscovered g"
  unfolding undiscovered_def by (intro card_mono) auto

lemma undiscovered_set_discovered:
  "in_bitset v \<Longrightarrow> nat v \<notin> discovered g \<Longrightarrow> undiscovered (set_discovered (nat v) g) < undiscovered g"
  unfolding undiscovered_def set_discovered_def in_bitset_def
  by (intro psubset_card_mono) auto

lemma prim_simps [simp]:
  "discovered (set_discovered i g) = insert i (discovered g)"
  "discovered (set_processed i g) = discovered g"
  "discovered (print xs g) = discovered g"
  "processed (set_discovered i g) = processed g"
  "processed (set_processed i g) = insert i (processed g)"
  "processed (print xs g) = processed g"
  "vertex (set_discovered i g) = vertex g"
  "vertex (set_processed i g) = vertex g"
  "vertex (print xs g) = vertex g"
  "parent (set_discovered i g) = parent g"
  "parent (set_processed i g) = parent g"
  "parent (print xs g) = parent g"
  "nvertex (set_discovered i g) = nvertex g"
  "nvertex (set_processed i g) = nvertex g"
  "nvertex (print xs g) = nvertex g"
  "directed (set_discovered i g) = directed g"
  "directed (set_processed i g) = directed g"
  "directed (print xs g) = directed g"
  "cout (set_discovered i g) = cout g"
  "cout (set_processed i g) = cout g"
  "cout (print xs g) = cout g @ xs"
  "trail (set_discovered i g) = trail g @ [Discover i]"
  "trail (set_processed i g) = trail g @ [Process i]"
  "trail (print xs g) = trail g"
  by (simp_all add: set_discovered_def set_processed_def print_def)

lemma do_dfs_grows_dom:
  "do_dfs_do_dfs_edges_dom (Inl (v, g)) \<Longrightarrow> do_dfs v g = Inr g' \<Longrightarrow> discovered g \<subseteq> discovered g'"
  "do_dfs_do_dfs_edges_dom (Inr (es, g)) \<Longrightarrow> do_dfs_edges es g = Inr g' \<Longrightarrow> discovered g \<subseteq> discovered g'"
proof (induction v g and es g arbitrary: g' and g' rule: do_dfs_do_dfs_edges.pinduct)
  case (1 v g)
  show ?case
  proof (cases "in_bitset v \<and> nat v \<notin> discovered g")
    case False
    with 1(1,3) show ?thesis
      by (auto simp: do_dfs.psimps split: if_splits)
  next
    case True
    define g1 where "g1 = print [Num v, Chr (CHR '' '')] (set_discovered (nat v) g)"
    from True 1(1,3) obtain g2 where
      g2: "do_dfs_edges (neighbors (vertex g1 ! nat v)) g1 = Inr g2" and
      g': "g' = set_processed (nat v) g2" and iv: "in_vector v (vertex g1)"
      by (auto simp: do_dfs.psimps Let_def g1_def split: if_splits sum.splits)
    from 1(2) [of g1 g2] True iv g2 have "discovered g1 \<subseteq> discovered g2"
      by (simp add: g1_def)
    then show ?thesis by (auto simp: g' g1_def)
  qed
next
  case (2 g)
  then show ?case by (simp add: do_dfs_edges.psimps)
next
  case (3 e es g)
  from 3(1,4) obtain g1 where g1: "do_dfs (to e) g = Inr g1" and r: "do_dfs_edges es g1 = Inr g'"
    by (auto simp: do_dfs_edges.psimps split: sum.splits)
  from 3(2) [OF g1] 3(3) [OF g1 r] show ?case by blast
qed

termination do_dfs
proof (relation "inv_image (less_than <*lex*> less_than)
    (\<lambda>x. case x of Inl (v, g) \<Rightarrow> (undiscovered g, 0)
                  | Inr (es, g) \<Rightarrow> (undiscovered g, Suc (length es)))", goal_cases)
  case 1
  show ?case by (intro wf_inv_image wf_lex_prod wf_less_than)
next
  case (2 v g g1)
  then show ?case
    using undiscovered_set_discovered [of v g]
    by (simp add: undiscovered_def)
next
  case (3 e es g)
  then show ?case by simp
next
  case (4 e es g g1)
  then show ?case
    using undiscovered_mono [OF do_dfs_grows_dom(1) [of "to e" g g1]] by auto
qed


declare do_dfs.simps [simp del]

text \<open>
  The sweep of \<open>dfs\<close> and \<open>bfs\<close>, \<^verbatim>\<open>for (size_t i = 1; i <= _nvertex; ++i)\<close>, as a
  recursion over the indices \<open>1 .. _nvertex\<close>. Every iteration reads a bitset at \<open>i\<close>,
  so the loop stops with an error at \<open>i = MAX_VERTEX + 1\<close>, long before \<open>i\<close> could wrap.
\<close>

fun dfs_sweep :: "nat list \<Rightarrow> graph \<Rightarrow> error + graph" where
  "dfs_sweep [] g = Inr g"
| "dfs_sweep (i # is) g =
     (if \<not> in_bitset (int i) then Inl OutOfBounds
      else if i \<notin> processed g then
        (case do_dfs (int i) g of Inl err \<Rightarrow> Inl err | Inr g1 \<Rightarrow> dfs_sweep is g1)
      else dfs_sweep is g)"

text \<open>
  \<^verbatim>\<open>void dfs(int v)\<close>. In \<open>v <= _nvertex\<close> the \<open>int\<close> is converted to \<open>size_t\<close>;
  together with \<open>v > 0\<close> the test is \<open>0 < v \<le> _nvertex\<close> on the mathematical values.
\<close>

definition dfs :: "int \<Rightarrow> graph \<Rightarrow> error + graph" where
  "dfs v g =
     (case (if nat v \<le> nvertex g \<and> v > 0 then do_dfs v g else Inr g) of
        Inl err \<Rightarrow> Inl err
      | Inr g1 \<Rightarrow> dfs_sweep [1 ..< Suc (nvertex g1)] g1)"

section \<open>Breadth-first traversal\<close>

text \<open>The inner loop of \<open>do_bfs\<close> over the edges of the front vertex; \<open>q\<close> is the queue.\<close>

fun do_bfs_edges :: "Edge list \<Rightarrow> int list \<Rightarrow> graph \<Rightarrow> error + (int list \<times> graph)" where
  "do_bfs_edges [] q g = Inr (q, g)"
| "do_bfs_edges (e # es) q g =
     (if \<not> in_bitset (to e) then Inl OutOfBounds
      else if nat (to e) \<notin> discovered g then
        do_bfs_edges es (q @ [to e]) (set_discovered (nat (to e)) g)
      else do_bfs_edges es q g)"

lemma do_bfs_edges_measure:
  "do_bfs_edges es q g = Inr (q', g') \<Longrightarrow>
     undiscovered g' + length q' \<le> undiscovered g + length q"
proof (induction es arbitrary: q g)
  case Nil
  then show ?case by simp
next
  case (Cons e es)
  show ?case
  proof (cases "nat (to e) \<in> discovered g")
    case True
    with Cons show ?thesis by (auto split: if_splits)
  next
    case False
    with Cons.prems have b: "in_bitset (to e)" and
      r: "do_bfs_edges es (q @ [to e]) (set_discovered (nat (to e)) g) = Inr (q', g')"
      by (auto split: if_splits)
    from Cons.IH [OF r] undiscovered_set_discovered [OF b False] show ?thesis by simp
  qed
qed

text \<open>The \<open>while (!q.empty())\<close> loop of \<open>do_bfs\<close>.\<close>

function do_bfs_loop :: "int list \<Rightarrow> graph \<Rightarrow> error + graph" where
  "do_bfs_loop q g =
     (if q \<noteq> [] then
        let x = hd q
        in if \<not> in_vector x (vertex g) then Inl OutOfBounds
           else (case do_bfs_edges (neighbors (vertex g ! nat x)) q g of
                   Inl err \<Rightarrow> Inl err
                 | Inr (q1, g1) \<Rightarrow>
                     if \<not> in_bitset x then Inl OutOfBounds
                     else do_bfs_loop (tl q1)
                            (print [Num x, Chr (CHR '' '')] (set_processed (nat x) g1)))
      else Inr g)"
  by pat_completeness auto

lemma do_bfs_edges_queue: "do_bfs_edges es q g = Inr (q', g') \<Longrightarrow> \<exists>r. q' = q @ r"
  by (induction es arbitrary: q g) (fastforce split: if_splits)+

termination do_bfs_loop
proof (relation "measure (\<lambda>(q, g). undiscovered g + length q)", goal_cases)
  case 1
  show ?case by simp
next
  case (2 q g x xa q1 g1)
  from 2 have r: "do_bfs_edges (neighbors (vertex g ! nat x)) q g = Inr (q1, g1)"
    by simp
  from do_bfs_edges_queue [OF r] 2(1) have "length (tl q1) < length q1" by auto
  with do_bfs_edges_measure [OF r]
  have "undiscovered g1 + length (tl q1) < undiscovered g + length q" by arith
  then show ?case by (simp add: undiscovered_def)
qed

declare do_bfs_loop.simps [simp del]

text \<open>\<^verbatim>\<open>void do_bfs(int start)\<close>\<close>

definition do_bfs :: "int \<Rightarrow> graph \<Rightarrow> error + graph" where
  "do_bfs start g =
     (if \<not> in_bitset start then Inl OutOfBounds
      else do_bfs_loop [start] (set_discovered (nat start) g))"

fun bfs_sweep :: "nat list \<Rightarrow> graph \<Rightarrow> error + graph" where
  "bfs_sweep [] g = Inr g"
| "bfs_sweep (i # is) g =
     (if \<not> in_bitset (int i) then Inl OutOfBounds
      else if i \<notin> processed g then
        (case do_bfs (int i) g of Inl err \<Rightarrow> Inl err | Inr g1 \<Rightarrow> bfs_sweep is g1)
      else bfs_sweep is g)"

text \<open>\<^verbatim>\<open>void bfs(int start)\<close>\<close>

definition bfs :: "int \<Rightarrow> graph \<Rightarrow> error + graph" where
  "bfs start g =
     (case (if start > 0 \<and> nat start \<le> nvertex g then do_bfs start g else Inr g) of
        Inl err \<Rightarrow> Inl err
      | Inr g1 \<Rightarrow> bfs_sweep [1 ..< Suc (nvertex g1)] g1)"

section \<open>Components and the visitation reset\<close>

text \<open>
  The loop of \<open>find_components\<close>; \<open>nc\<close> is \<open>ncomponent\<close>. The traversal called is the
  public \<open>dfs\<close>, as in the source.
\<close>

fun find_components_loop :: "nat list \<Rightarrow> int \<Rightarrow> graph \<Rightarrow> error + graph" where
  "find_components_loop [] nc g = Inr g"
| "find_components_loop (i # is) nc g =
     (if \<not> in_bitset (int i) then Inl OutOfBounds
      else if i \<notin> discovered g then
        (case dfs (int i) (print [Str ''component '', Num nc, Str '': ''] g) of
           Inl err \<Rightarrow> Inl err
         | Inr g1 \<Rightarrow> find_components_loop is (nc + 1) (print [Chr (CHR 0x0A)] g1))
      else find_components_loop is nc g)"

definition find_components :: "graph \<Rightarrow> error + graph" where
  "find_components g = find_components_loop [1 ..< Suc (nvertex g)] 1 g"

text \<open>\<^verbatim>\<open>void unvisit()\<close>: \<open>_discovered.reset(); _processed.reset();\<close>\<close>

definition unvisit :: "graph \<Rightarrow> graph" where
  "unvisit g = reset_processed (reset_discovered g)"


section \<open>Cycle detection\<close>

text \<open>
  \<^verbatim>\<open>bool detect_undirected_cycle(int v)\<close> and its loop over the edges of \<open>v\<close>. Both
  \<open>goto found\<close> leave the loop at once with \<open>true\<close>.
\<close>

function detect_undirected_cycle :: "int \<Rightarrow> graph \<Rightarrow> error + (bool \<times> graph)"
  and detect_undirected_cycle_edges :: "int \<Rightarrow> Edge list \<Rightarrow> graph \<Rightarrow> error + (bool \<times> graph)"
  where
  "detect_undirected_cycle v g =
     (if \<not> in_bitset v then Inl OutOfBounds
      else if nat v \<notin> discovered g then
        let g1 = set_discovered (nat v) g
        in if \<not> in_vector v (vertex g1) then Inl OutOfBounds
           else detect_undirected_cycle_edges v (neighbors (vertex g1 ! nat v)) g1
      else Inr (False, g))"
| "detect_undirected_cycle_edges v [] g = Inr (False, g)"
| "detect_undirected_cycle_edges v (e # es) g =
     (if \<not> in_bitset (to e) then Inl OutOfBounds
      else if nat (to e) \<notin> discovered g then
        if \<not> in_vector (to e) (parent g) then Inl OutOfBounds
        else (case detect_undirected_cycle (to e) (g\<lparr>parent := (parent g)[nat (to e) := v]\<rparr>) of
                Inl err \<Rightarrow> Inl err
              | Inr (found, g1) \<Rightarrow>
                  if found then Inr (True, g1) else detect_undirected_cycle_edges v es g1)
      else if \<not> in_vector v (parent g) then Inl OutOfBounds
      else if parent g ! nat v \<noteq> to e then Inr (True, g)
      else detect_undirected_cycle_edges v es g)"
  by pat_completeness auto

lemma detect_undirected_cycle_grows_dom:
  "detect_undirected_cycle_detect_undirected_cycle_edges_dom (Inl (v, g)) \<Longrightarrow>
     detect_undirected_cycle v g = Inr (b, g') \<Longrightarrow> discovered g \<subseteq> discovered g'"
  "detect_undirected_cycle_detect_undirected_cycle_edges_dom (Inr (v, es, g)) \<Longrightarrow>
     detect_undirected_cycle_edges v es g = Inr (b, g') \<Longrightarrow> discovered g \<subseteq> discovered g'"
proof (induction v g and v es g arbitrary: b g' and b g'
    rule: detect_undirected_cycle_detect_undirected_cycle_edges.pinduct)
  case (1 v g)
  show ?case
  proof (cases "in_bitset v \<and> nat v \<notin> discovered g")
    case False
    with 1(1,3) show ?thesis
      by (auto simp: detect_undirected_cycle.psimps split: if_splits)
  next
    case True
    define g1 where "g1 = set_discovered (nat v) g"
    from True 1(1,3) have iv: "in_vector v (vertex g1)" and
      r: "detect_undirected_cycle_edges v (neighbors (vertex g1 ! nat v)) g1 = Inr (b, g')"
      by (auto simp: detect_undirected_cycle.psimps Let_def g1_def split: if_splits)
    from 1(2) [of g1 b g'] True iv r have "discovered g1 \<subseteq> discovered g'"
      by (simp add: g1_def)
    then show ?thesis by (auto simp: g1_def)
  qed
next
  case (2 v g)
  then show ?case by (simp add: detect_undirected_cycle_edges.psimps)
next
  case (3 v e es g)
  show ?case
  proof (cases "nat (to e) \<notin> discovered g")
    case True
    define g0 where "g0 = g\<lparr>parent := (parent g)[nat (to e) := v]\<rparr>"
    from True 3(1,5) obtain found g1 where
      ib: "in_bitset (to e)" and iv: "in_vector (to e) (parent g)" and
      c: "detect_undirected_cycle (to e) g0 = Inr (found, g1)" and
      r: "if found then (b, g') = (True, g1) else detect_undirected_cycle_edges v es g1 = Inr (b, g')"
      by (auto simp: detect_undirected_cycle_edges.psimps g0_def split: if_splits sum.splits)
    from 3(2) [of found g1] ib True iv c have s1: "discovered g \<subseteq> discovered g1"
      by (simp add: g0_def)
    show ?thesis
    proof (cases found)
      case True
      with r s1 show ?thesis by simp
    next
      case False
      with r have r': "detect_undirected_cycle_edges v es g1 = Inr (b, g')" by simp
      from 3(3) ib True iv c False r'
      have "discovered g1 \<subseteq> discovered g'" by (simp add: g0_def)
      with s1 show ?thesis by blast
    qed
  next
    case False
    with 3(1,5) have ib: "in_bitset (to e)" and iv: "in_vector v (parent g)" and
      r: "if parent g ! nat v \<noteq> to e then (b, g') = (True, g)
          else detect_undirected_cycle_edges v es g = Inr (b, g')"
      by (auto simp: detect_undirected_cycle_edges.psimps split: if_splits)
    show ?thesis
    proof (cases "parent g ! nat v \<noteq> to e")
      case True
      with r show ?thesis by simp
    next
      case F: False
      with r 3(4) [of b g'] ib False iv show ?thesis by simp
    qed
  qed
qed

termination detect_undirected_cycle
proof (relation "inv_image (less_than <*lex*> less_than)
    (\<lambda>x. case x of Inl (v, g) \<Rightarrow> (undiscovered g, 0)
                  | Inr (v, es, g) \<Rightarrow> (undiscovered g, Suc (length es)))", goal_cases)
  case 1
  show ?case by (intro wf_inv_image wf_lex_prod wf_less_than)
next
  case (2 v g g1)
  then show ?case
    using undiscovered_set_discovered [of v g] by simp
next
  case (3 v e es g)
  then show ?case by (simp add: undiscovered_def)
next
  case (4 v e es g x found g1)
  then show ?case
    using undiscovered_mono [OF detect_undirected_cycle_grows_dom(1)
        [of "to e" "g\<lparr>parent := (parent g)[nat (to e) := v]\<rparr>" found g1]]
    by (auto simp: undiscovered_def)
next
  case (5 v e es g)
  then show ?case by simp
qed

declare detect_undirected_cycle.simps [simp del]

text \<open>
  \<^verbatim>\<open>bool detect_directed_cycle()\<close> reads and writes \<open>_vertex\<close> only, so its loops
  pass the vertex vector \<open>vs\<close> along. The stack \<open>s\<close> is a list with its top at the head.

  The first loop pushes every \<open>i\<close> in \<open>1 .. _nvertex\<close> whose indegree is zero.
\<close>

fun kahn_seed :: "nat list \<Rightarrow> int list \<Rightarrow> Vertex list \<Rightarrow> error + int list" where
  "kahn_seed [] s vs = Inr s"
| "kahn_seed (i # is) s vs =
     (if \<not> in_vector (int i) vs then Inl OutOfBounds
      else if 0 = indegree (vs ! i) then kahn_seed is (int i # s) vs
      else kahn_seed is s vs)"

text \<open>The loop over the edges of the popped vertex: \<open>if (0 == --_vertex[e->to].indegree) s.push(e->to);\<close>\<close>

fun kahn_edges :: "Edge list \<Rightarrow> int list \<Rightarrow> Vertex list \<Rightarrow> error + (int list \<times> Vertex list)" where
  "kahn_edges [] s vs = Inr (s, vs)"
| "kahn_edges (e # es) s vs =
     (if \<not> in_vector (to e) vs then Inl OutOfBounds
      else
        let w = vs ! nat (to e);
            vs1 = vs[nat (to e) := w\<lparr>indegree := indegree w - 1\<rparr>]
        in if 0 = indegree (vs1 ! nat (to e)) then kahn_edges es (to e # s) vs1
           else kahn_edges es s vs1)"

text \<open>
  The stack loop ends because a vertex is pushed only when its counter comes down to zero
  from one: the number of vertices with a positive counter plus the height of the stack
  goes down with every pop.
\<close>

definition positive :: "Vertex list \<Rightarrow> nat" where
  "positive vs = sum_list (map (\<lambda>v. if 0 < indegree v then 1 else 0) vs)"

lemma positive_update:
  "i < length vs \<Longrightarrow>
     positive (vs[i := w]) + (if 0 < indegree (vs ! i) then 1 else 0) =
       positive vs + (if 0 < indegree w then 1 else 0)"
  unfolding positive_def
proof (induction vs arbitrary: i)
  case Nil
  then show ?case by simp
next
  case (Cons a vs)
  then show ?case by (cases i) auto
qed

lemma kahn_edges_measure:
  "kahn_edges es s vs = Inr (s', vs') \<Longrightarrow> positive vs' + length s' \<le> positive vs + length s"
proof (induction es arbitrary: s vs)
  case Nil
  then show ?case by simp
next
  case (Cons e es)
  from Cons.prems have iv: "in_vector (to e) vs" by (auto split: if_splits)
  define w where "w = vs ! nat (to e)"
  define vs1 where "vs1 = vs[nat (to e) := w\<lparr>indegree := indegree w - 1\<rparr>]"
  from iv have i: "nat (to e) < length vs" by (simp add: in_vector_def)
  have p: "positive vs1 + (if 0 < indegree w then 1 else 0) = positive vs + (if 1 < indegree w then 1 else 0)"
    unfolding vs1_def using positive_update [OF i, of "w\<lparr>indegree := indegree w - 1\<rparr>"]
    by (simp add: w_def)
  have z: "indegree (vs1 ! nat (to e)) = indegree w - 1"
    using i by (simp add: vs1_def)
  show ?case
  proof (cases "indegree w = 1")
    case True
    with Cons.prems iv z have "kahn_edges es (to e # s) vs1 = Inr (s', vs')"
      by (simp add: Let_def w_def vs1_def)
    from Cons.IH [OF this] p True show ?thesis by simp
  next
    case False
    with Cons.prems iv z have "kahn_edges es s vs1 = Inr (s', vs')"
      by (simp add: Let_def w_def vs1_def)
    from Cons.IH [OF this] p False show ?thesis by (simp split: if_splits)
  qed
qed

text \<open>
  The \<open>while (!s.empty())\<close> loop. \<open>order\<close> is not a variable of the source: it lists the
  popped vertices in the order of the pops, next to the counter \<open>nprocessed\<close>.
\<close>

function kahn_loop ::
  "int list \<Rightarrow> nat \<Rightarrow> int list \<Rightarrow> Vertex list \<Rightarrow> error + (nat \<times> int list \<times> Vertex list)" where
  "kahn_loop s nprocessed order vs =
     (if s \<noteq> [] then
        let v = hd s; s1 = tl s
        in if \<not> in_vector v vs then Inl OutOfBounds
           else (case kahn_edges (neighbors (vs ! nat v)) s1 vs of
                   Inl err \<Rightarrow> Inl err
                 | Inr (s2, vs2) \<Rightarrow> kahn_loop s2 (nprocessed + 1) (order @ [v]) vs2)
      else Inr (nprocessed, order, vs))"
  by pat_completeness auto

termination kahn_loop
proof (relation "measure (\<lambda>(s, n, order, vs). positive vs + length s)", goal_cases)
  case 1
  show ?case by simp
next
  case (2 s nprocessed order vs v s1 x s2 vs2)
  from 2 have "kahn_edges (neighbors (vs ! nat v)) s1 vs = Inr (s2, vs2)" by simp
  from kahn_edges_measure [OF this] 2(1,3) have "positive vs2 + length s2 < positive vs + length s"
    by (cases s) auto
  then show ?case by simp
qed

declare kahn_loop.simps [simp del]

definition kahn :: "nat \<Rightarrow> Vertex list \<Rightarrow> error + (nat \<times> int list \<times> Vertex list)" where
  "kahn n vs =
     (case kahn_seed [1 ..< Suc n] [] vs of
        Inl err \<Rightarrow> Inl err
      | Inr s \<Rightarrow> kahn_loop s 0 [] vs)"

definition detect_directed_cycle :: "graph \<Rightarrow> error + (bool \<times> graph)" where
  "detect_directed_cycle g =
     (case kahn (nvertex g) (vertex g) of
        Inl err \<Rightarrow> Inl err
      | Inr (nprocessed, order, vs) \<Rightarrow> Inr (nprocessed \<noteq> nvertex g, g\<lparr>vertex := vs\<rparr>))"

text \<open>The order in which \<open>detect_directed_cycle\<close> pops the vertices.\<close>

definition processing_order :: "graph \<Rightarrow> error + int list" where
  "processing_order g =
     (case kahn (nvertex g) (vertex g) of
        Inl err \<Rightarrow> Inl err
      | Inr (nprocessed, order, vs) \<Rightarrow> Inr order)"

text \<open>The loop of \<open>has_cycle\<close> for an undirected graph: \<open>cycle |= detect_undirected_cycle(i)\<close>.\<close>

fun has_cycle_loop :: "nat list \<Rightarrow> bool \<Rightarrow> graph \<Rightarrow> error + (bool \<times> graph)" where
  "has_cycle_loop [] cycle g = Inr (cycle, g)"
| "has_cycle_loop (i # is) cycle g =
     (if \<not> in_bitset (int i) then Inl OutOfBounds
      else if i \<notin> discovered g then
        (case detect_undirected_cycle (int i) g of
           Inl err \<Rightarrow> Inl err
         | Inr (found, g1) \<Rightarrow> has_cycle_loop is (cycle \<or> found) g1)
      else has_cycle_loop is cycle g)"

text \<open>\<^verbatim>\<open>bool has_cycle()\<close>\<close>

definition has_cycle :: "graph \<Rightarrow> error + (bool \<times> graph)" where
  "has_cycle g =
     (if nvertex g > 0 then
        let g1 = unvisit g
        in if \<not> directed g1 then has_cycle_loop [1 ..< Suc (nvertex g1)] False g1
           else detect_directed_cycle g1
      else Inr (False, g))"


text \<open>Sequencing of two steps, the second of which runs only if the first did not fail.\<close>

definition and_then :: "error + 'a \<Rightarrow> ('a \<Rightarrow> error + 'b) \<Rightarrow> error + 'b" where
  "and_then r f = (case r of Inl err \<Rightarrow> Inl err | Inr x \<Rightarrow> f x)"

section \<open>The graphs of the specification's scenarios\<close>

text \<open>
  Each scenario is read by \<open>read_graph\<close> into storage of \<open>n + 1\<close> vertices, which
  inserts the mirrored edge itself when the graph is undirected.
\<close>

definition scenario_A :: "error + graph" where
  "scenario_A = read_graph [(1, 2), (2, 3)] (sized_graph 3 True)"

definition scenario_B :: "error + graph" where
  "scenario_B = read_graph [(1, 2), (2, 3), (3, 1)] (sized_graph 3 True)"

definition scenario_C :: "error + graph" where
  "scenario_C = read_graph [(1, 2), (2, 3)] (sized_graph 4 False)"

definition scenario_D :: "error + graph" where
  "scenario_D = read_graph [(1, 2), (2, 3), (3, 1)] (sized_graph 3 False)"

text \<open>A directed graph with the cycle \<open>2 \<rightarrow> 3 \<rightarrow> 2\<close> entered from vertex 1.\<close>

definition cycle_with_tail :: "error + graph" where
  "cycle_with_tail = read_graph [(1, 2), (2, 3), (3, 2)] (sized_graph 3 True)"

section \<open>The bitsets at every point of an execution\<close>

text \<open>The effect of one write on the pair \<open>(_discovered, _processed)\<close>.\<close>

fun apply_write :: "bit_write \<Rightarrow> nat set \<times> nat set \<Rightarrow> nat set \<times> nat set" where
  "apply_write (Discover i) (d, p) = (insert i d, p)"
| "apply_write (Process i) (d, p) = (d, insert i p)"
| "apply_write ResetDiscovered (d, p) = ({}, p)"
| "apply_write ResetProcessed (d, p) = (d, {})"

text \<open>The values the pair takes: before the first write and after each write.\<close>

fun points :: "bit_write list \<Rightarrow> nat set \<times> nat set \<Rightarrow> (nat set \<times> nat set) list" where
  "points [] b = [b]"
| "points (w # ws) b = b # points ws (apply_write w b)"

text \<open>
  The values the two bitsets take while an operation leads from \<open>g\<close> to \<open>g'\<close>: the
  writes the operation added to the trail, replayed from the bitsets of \<open>g\<close>.
\<close>

definition during :: "graph \<Rightarrow> graph \<Rightarrow> (nat set \<times> nat set) list" where
  "during g g' = points (drop (length (trail g)) (trail g')) (discovered g, processed g)"

text \<open>
  \<open>tracked b0 t0 g\<close>: since the trail was \<open>t0\<close> and the bitsets were \<open>b0\<close>, the
  writes logged lead to the bitsets of \<open>g\<close>, and processed implies discovered at each
  point on the way.
\<close>

definition tracked :: "nat set \<times> nat set \<Rightarrow> bit_write list \<Rightarrow> graph \<Rightarrow> bool" where
  "tracked b0 t0 g \<longleftrightarrow>
     (\<exists>ws. trail g = t0 @ ws \<and> last (points ws b0) = (discovered g, processed g)
         \<and> (\<forall>b \<in> set (points ws b0). snd b \<subseteq> fst b))"

text \<open>
  What every traversal step keeps: bits are only added, the structure of the graph is
  untouched, and a tracked state stays tracked.
\<close>

definition step_ok :: "graph \<Rightarrow> graph \<Rightarrow> bool" where
  "step_ok g g' \<longleftrightarrow>
     discovered g \<subseteq> discovered g' \<and> processed g \<subseteq> processed g'
     \<and> vertex g' = vertex g \<and> parent g' = parent g \<and> nvertex g' = nvertex g
     \<and> (\<forall>b0 t0. tracked b0 t0 g \<longrightarrow> tracked b0 t0 g')"

text \<open>
  The undirected graph on two vertices with the edge between 1 and 2 stored in both
  directions, as \<open>read_graph\<close> builds it from the pair \<open>(1, 2)\<close>.
\<close>

definition joined_pair :: graph where
  "joined_pair = (sized_graph 2 False)
     \<lparr>vertex := [\<lparr>indegree = 0, outdegree = 0, neighbors = []\<rparr>,
                 \<lparr>indegree = 0, outdegree = 0, neighbors = [\<lparr>weight = 0, to = 2\<rparr>]\<rparr>,
                 \<lparr>indegree = 0, outdegree = 0, neighbors = [\<lparr>weight = 0, to = 1\<rparr>]\<rparr>]\<rparr>"

section \<open>Directed cycles and topological orders\<close>

text \<open>The targets of the edges stored at vertex \<open>u\<close>, in insertion order.\<close>

definition targets :: "Vertex list \<Rightarrow> int \<Rightarrow> int list" where
  "targets vs u = map to (neighbors (vs ! nat u))"

text \<open>The number of edges into \<open>w\<close> from the vertices of \<open>U\<close>, parallel edges counted.\<close>

definition edge_count :: "Vertex list \<Rightarrow> int set \<Rightarrow> int \<Rightarrow> nat" where
  "edge_count vs U w = (\<Sum>u \<in> U. count_list (targets vs u) w)"

text \<open>The directed edges of the graph: those stored at the vertices \<open>1 .. nvertex\<close>.\<close>

definition arcs :: "graph \<Rightarrow> (int \<times> int) set" where
  "arcs g = {(u, w). 1 \<le> u \<and> u \<le> int (nvertex g) \<and> w \<in> set (targets (vertex g) u)}"

text \<open>A directed cycle is a non-empty path of edges from a vertex back to itself.\<close>

definition has_directed_cycle :: "graph \<Rightarrow> bool" where
  "has_directed_cycle g \<longleftrightarrow> (\<exists>v. (v, v) \<in> (arcs g)\<^sup>+)"

text \<open>\<open>u\<close> appears before \<open>v\<close> in the list.\<close>

definition appears_before :: "'a list \<Rightarrow> 'a \<Rightarrow> 'a \<Rightarrow> bool" where
  "appears_before xs u v \<longleftrightarrow> (\<exists>i j. i < j \<and> j < length xs \<and> xs ! i = u \<and> xs ! j = v)"

text \<open>
  The state of a directed graph before its first cycle check, as \<open>add_edge\<close> with
  endpoints in \<open>[1, nvertex]\<close> builds it on storage of \<open>nvertex + 1\<close> vertices: every
  edge leads to a vertex in \<open>1 .. nvertex\<close>, and the indegree counter of every vertex
  is the number of edges into it.
\<close>

definition counted :: "graph \<Rightarrow> bool" where
  "counted g \<longleftrightarrow>
     length (vertex g) = nvertex g + 1
     \<and> (\<forall>u \<in> {1 .. int (nvertex g)}. \<forall>w \<in> set (targets (vertex g) u). 1 \<le> w \<and> w \<le> int (nvertex g))
     \<and> (\<forall>v \<in> {1 .. int (nvertex g)}.
           indegree (vertex g ! nat v) = int (edge_count (vertex g) {1 .. int (nvertex g)} v))"

subsection \<open>Invariants of the elimination\<close>

text \<open>
  \<open>vs0\<close> is the vertex vector at the call, \<open>vs\<close> the current one, \<open>s\<close> the stack and
  \<open>order\<close> the vertices popped so far. Between two pops: the edges are those of
  \<open>vs0\<close>; the stack and the popped vertices are distinct vertices of \<open>1 .. n\<close>; the
  counter of every vertex is the number of edges into it from vertices not yet popped;
  the counter is zero exactly for the vertices on the stack or popped; and every popped
  vertex has all its predecessors popped before it. Inside the loop over the edges
  \<open>es\<close> still to visit of the vertex \<open>v\<close> just popped, the counters also count the
  edges of \<open>es\<close>.
\<close>

definition kahn_inner ::
  "nat \<Rightarrow> Vertex list \<Rightarrow> int \<Rightarrow> Edge list \<Rightarrow> int list \<Rightarrow> int list \<Rightarrow> Vertex list \<Rightarrow> bool" where
  "kahn_inner n vs0 v es s order vs \<longleftrightarrow>
     length vs = n + 1
     \<and> (\<forall>u. targets vs u = targets vs0 u)
     \<and> distinct (v # s @ order) \<and> set (v # s @ order) \<subseteq> {1 .. int n}
     \<and> to ` set es \<subseteq> {1 .. int n}
     \<and> (\<forall>w \<in> {1 .. int n}. indegree (vs ! nat w) =
           int (edge_count vs0 ({1 .. int n} - set order - {v}) w + count_list (map to es) w))
     \<and> (\<forall>w \<in> {1 .. int n}. (indegree (vs ! nat w) = 0) = (w \<in> set (v # s @ order)))"

definition kahn_outer :: "nat \<Rightarrow> Vertex list \<Rightarrow> int list \<Rightarrow> int list \<Rightarrow> Vertex list \<Rightarrow> bool" where
  "kahn_outer n vs0 s order vs \<longleftrightarrow>
     length vs = n + 1
     \<and> (\<forall>u. targets vs u = targets vs0 u)
     \<and> distinct (s @ order) \<and> set (s @ order) \<subseteq> {1 .. int n}
     \<and> (\<forall>w \<in> {1 .. int n}. indegree (vs ! nat w) = int (edge_count vs0 ({1 .. int n} - set order) w))
     \<and> (\<forall>w \<in> {1 .. int n}. (indegree (vs ! nat w) = 0) = (w \<in> set (s @ order)))
     \<and> (\<forall>j < length order. \<forall>u \<in> {1 .. int n}.
           order ! j \<in> set (targets vs0 u) \<longrightarrow> u \<in> set (take j order))"


text \<open>The directed graphs of scenarios A and B, as \<open>read_graph\<close> builds them.\<close>

definition directed_path :: graph where
  "directed_path = (sized_graph 3 True)
     \<lparr>vertex := [\<lparr>indegree = 0, outdegree = 0, neighbors = []\<rparr>,
                 \<lparr>indegree = 0, outdegree = 1, neighbors = [\<lparr>weight = 0, to = 2\<rparr>]\<rparr>,
                 \<lparr>indegree = 1, outdegree = 1, neighbors = [\<lparr>weight = 0, to = 3\<rparr>]\<rparr>,
                 \<lparr>indegree = 1, outdegree = 0, neighbors = []\<rparr>]\<rparr>"

definition directed_triangle :: graph where
  "directed_triangle = (sized_graph 3 True)
     \<lparr>vertex := [\<lparr>indegree = 0, outdegree = 0, neighbors = []\<rparr>,
                 \<lparr>indegree = 1, outdegree = 1, neighbors = [\<lparr>weight = 0, to = 2\<rparr>]\<rparr>,
                 \<lparr>indegree = 1, outdegree = 1, neighbors = [\<lparr>weight = 0, to = 3\<rparr>]\<rparr>,
                 \<lparr>indegree = 1, outdegree = 1, neighbors = [\<lparr>weight = 0, to = 1\<rparr>]\<rparr>]\<rparr>"


text \<open>
  The undirected triangle of scenario D as \<open>read_graph\<close> builds it, and the state in
  which its cycle check visits the edges of vertex 3: the scan has gone from 1 to 2 to 3.
\<close>

definition undirected_triangle :: graph where
  "undirected_triangle = (sized_graph 3 False)
     \<lparr>vertex := [\<lparr>indegree = 0, outdegree = 0, neighbors = []\<rparr>,
                 \<lparr>indegree = 0, outdegree = 0,
                    neighbors = [\<lparr>weight = 0, to = 2\<rparr>, \<lparr>weight = 0, to = 3\<rparr>]\<rparr>,
                 \<lparr>indegree = 0, outdegree = 0,
                    neighbors = [\<lparr>weight = 0, to = 1\<rparr>, \<lparr>weight = 0, to = 3\<rparr>]\<rparr>,
                 \<lparr>indegree = 0, outdegree = 0,
                    neighbors = [\<lparr>weight = 0, to = 2\<rparr>, \<lparr>weight = 0, to = 1\<rparr>]\<rparr>]\<rparr>"


definition at_vertex_3 :: graph where
  "at_vertex_3 = undirected_triangle\<lparr>parent := [- 1, - 1, 1, 2], discovered := {1, 2, 3},
      trail := [ResetDiscovered, ResetProcessed, Discover 1, Discover 2, Discover 3]\<rparr>"


text \<open>The directed path of scenario A after one cycle check: every indegree is zero.\<close>

definition directed_path_checked :: graph where
  "directed_path_checked = directed_path
     \<lparr>vertex := [\<lparr>indegree = 0, outdegree = 0, neighbors = []\<rparr>,
                 \<lparr>indegree = 0, outdegree = 1, neighbors = [\<lparr>weight = 0, to = 2\<rparr>]\<rparr>,
                 \<lparr>indegree = 0, outdegree = 1, neighbors = [\<lparr>weight = 0, to = 3\<rparr>]\<rparr>,
                 \<lparr>indegree = 0, outdegree = 0, neighbors = []\<rparr>],
      trail := [ResetDiscovered, ResetProcessed]\<rparr>"


section \<open>Graphs whose accesses stay in bounds\<close>

text \<open>
  A graph whose accesses all stay in bounds: both vectors hold \<open>nvertex + 1\<close> elements,
  \<open>nvertex\<close> is at most \<open>MAX_VERTEX\<close>, and every stored edge leads to an index in
  \<open>0 .. nvertex\<close>.
\<close>

definition in_range :: "graph \<Rightarrow> bool" where
  "in_range g \<longleftrightarrow>
     length (vertex g) = nvertex g + 1 \<and> length (parent g) = nvertex g + 1
     \<and> nvertex g \<le> MAX_VERTEX
     \<and> (\<forall>v \<in> set (vertex g). \<forall>e \<in> set (neighbors v). 0 \<le> to e \<and> to e \<le> int (nvertex g))"


text \<open>The same for the vertex vector alone, as the directed cycle check passes it along.\<close>

definition edges_in_range :: "nat \<Rightarrow> Vertex list \<Rightarrow> bool" where
  "edges_in_range n vs \<longleftrightarrow>
     length vs = n + 1 \<and> (\<forall>v \<in> set vs. \<forall>e \<in> set (neighbors v). 0 \<le> to e \<and> to e \<le> int n)"


section \<open>Construction: claim C1\<close>

lemma in_vector_Nil [simp]: "in_vector i [] = False"
  by (simp add: in_vector_def)

text \<open>
  Claim C1 says that after \<open>new(vertexCount, directed)\<close> the vertex storage holds an
  initialised entry for every id in \<open>0 .. vertexCount\<close>, so that \<open>add_edge\<close> with
  endpoints in \<open>[1, vertexCount]\<close> stays in bounds. The constructor calls \<open>reserve\<close>,
  which leaves \<open>_vertex.size()\<close> at zero: its initialising loop runs no iteration, both
  vectors stay empty, and every \<open>add_edge\<close> on the constructed graph indexes
  \<open>_vertex\<close> out of bounds, whatever its endpoints.
\<close>

theorem constructor_leaves_storage_empty:
  "map_sum id vertex (Graph n d) = Inr [] \<and> map_sum id parent (Graph n d) = Inr []
   \<and> and_then (Graph n d) (add_edge x y w) = Inl OutOfBounds"
  by (simp add: Graph_def reserve_def and_then_def add_edge_def)

section \<open>Edge insertion: claim C8\<close>

lemma add_edge_undirected:
  assumes "\<not> directed g" and "in_vector x (vertex g)"
  shows "add_edge x y w g =
     Inr (g\<lparr>vertex := (vertex g)[nat x := (vertex g ! nat x)
            \<lparr>neighbors := neighbors (vertex g ! nat x) @ [\<lparr>weight = w, to = y\<rparr>]\<rparr>]\<rparr>)"
  using assms by (simp add: add_edge_def Let_def)

lemma add_edge_directed:
  assumes "directed g" and "in_vector x (vertex g)" and "in_vector y (vertex g)"
  shows "\<exists>g'. add_edge x y w g = Inr g'
           \<and> neighbors (vertex g' ! nat x) = neighbors (vertex g ! nat x) @ [\<lparr>weight = w, to = y\<rparr>]
           \<and> (\<forall>i. i \<noteq> nat x \<longrightarrow> neighbors (vertex g' ! i) = neighbors (vertex g ! i))
           \<and> length (vertex g') = length (vertex g)"
  using assms by (auto simp: add_edge_def Let_def in_vector_def nth_list_update)

lemma add_edge_beyond_storage:
  assumes "\<not> in_vector x (vertex g) \<or> (directed g \<and> \<not> in_vector y (vertex g))"
  shows "add_edge x y w g = Inl OutOfBounds"
  using assms by (auto simp: add_edge_def Let_def in_vector_def)

text \<open>
  Claim C8, as amended. \<open>add_edge\<close> makes no range check and has no \<open>OutOfRange\<close>
  error; what it does depends on the bounds of the storage only. On storage of
  \<open>nvertex + 1\<close> vertices, with both endpoints in \<open>[1, nvertex]\<close>, it succeeds: the edge
  is appended to the outgoing list of \<open>from\<close>, the other lists and the size of the
  storage are unchanged. On an undirected graph it succeeds for every \<open>to\<close> whenever
  \<open>from\<close> indexes the storage, index 0 included; on a directed graph whenever both
  endpoints index the storage. In every other case a subscript is beyond the storage.
\<close>

theorem add_edge_outcome:
  "(length (vertex g) = nvertex g + 1
      \<and> 1 \<le> x \<and> x \<le> int (nvertex g) \<and> 1 \<le> y \<and> y \<le> int (nvertex g) \<longrightarrow>
      (\<exists>g'. add_edge x y w g = Inr g'
         \<and> neighbors (vertex g' ! nat x) = neighbors (vertex g ! nat x) @ [\<lparr>weight = w, to = y\<rparr>]
         \<and> (\<forall>i. i \<noteq> nat x \<longrightarrow> neighbors (vertex g' ! i) = neighbors (vertex g ! i))
         \<and> length (vertex g') = length (vertex g)))
   \<and> (\<not> directed g \<and> in_vector x (vertex g) \<longrightarrow>
      add_edge x y w g =
        Inr (g\<lparr>vertex := (vertex g)[nat x := (vertex g ! nat x)
               \<lparr>neighbors := neighbors (vertex g ! nat x) @ [\<lparr>weight = w, to = y\<rparr>]\<rparr>]\<rparr>))
   \<and> (directed g \<and> in_vector x (vertex g) \<and> in_vector y (vertex g) \<longrightarrow>
      (\<exists>g'. add_edge x y w g = Inr g'
         \<and> neighbors (vertex g' ! nat x) = neighbors (vertex g ! nat x) @ [\<lparr>weight = w, to = y\<rparr>]
         \<and> (\<forall>i. i \<noteq> nat x \<longrightarrow> neighbors (vertex g' ! i) = neighbors (vertex g ! i))
         \<and> length (vertex g') = length (vertex g)))
   \<and> (\<not> in_vector x (vertex g) \<or> (directed g \<and> \<not> in_vector y (vertex g)) \<longrightarrow>
      add_edge x y w g = Inl OutOfBounds)"
proof (intro conjI impI)
  assume a: "length (vertex g) = nvertex g + 1
      \<and> 1 \<le> x \<and> x \<le> int (nvertex g) \<and> 1 \<le> y \<and> y \<le> int (nvertex g)"
  then have x: "in_vector x (vertex g)" and y: "in_vector y (vertex g)"
    by (auto simp: in_vector_def)
  show "\<exists>g'. add_edge x y w g = Inr g'
         \<and> neighbors (vertex g' ! nat x) = neighbors (vertex g ! nat x) @ [\<lparr>weight = w, to = y\<rparr>]
         \<and> (\<forall>i. i \<noteq> nat x \<longrightarrow> neighbors (vertex g' ! i) = neighbors (vertex g ! i))
         \<and> length (vertex g') = length (vertex g)"
  proof (cases "directed g")
    case True
    from add_edge_directed [OF True x y] show ?thesis .
  next
    case False
    from x have "nat x < length (vertex g)" by (simp add: in_vector_def)
    with add_edge_undirected [OF False x, of y w] show ?thesis by simp
  qed
next
  assume "\<not> directed g \<and> in_vector x (vertex g)"
  then show "add_edge x y w g =
        Inr (g\<lparr>vertex := (vertex g)[nat x := (vertex g ! nat x)
               \<lparr>neighbors := neighbors (vertex g ! nat x) @ [\<lparr>weight = w, to = y\<rparr>]\<rparr>]\<rparr>)"
    by (intro add_edge_undirected) simp_all
next
  assume "directed g \<and> in_vector x (vertex g) \<and> in_vector y (vertex g)"
  then show "\<exists>g'. add_edge x y w g = Inr g'
         \<and> neighbors (vertex g' ! nat x) = neighbors (vertex g ! nat x) @ [\<lparr>weight = w, to = y\<rparr>]
         \<and> (\<forall>i. i \<noteq> nat x \<longrightarrow> neighbors (vertex g' ! i) = neighbors (vertex g ! i))
         \<and> length (vertex g') = length (vertex g)"
    by (intro add_edge_directed) simp_all
next
  assume "\<not> in_vector x (vertex g) \<or> (directed g \<and> \<not> in_vector y (vertex g))"
  then show "add_edge x y w g = Inl OutOfBounds"
    by (rule add_edge_beyond_storage)
qed

theorem add_edge_outcome_witness:
  "length (vertex (sized_graph 3 True)) = nvertex (sized_graph 3 True) + 1
   \<and> (\<exists>g'. add_edge 1 2 0 (sized_graph 3 True) = Inr g'
         \<and> neighbors (vertex g' ! nat 1) = neighbors (vertex (sized_graph 3 True) ! nat 1) @ [\<lparr>weight = 0, to = 2\<rparr>]
         \<and> (\<forall>i. i \<noteq> nat 1 \<longrightarrow> neighbors (vertex g' ! i) = neighbors (vertex (sized_graph 3 True) ! i))
         \<and> length (vertex g') = length (vertex (sized_graph 3 True)))
   \<and> \<not> directed (sized_graph 3 False) \<and> in_vector 0 (vertex (sized_graph 3 False))
   \<and> add_edge 0 (- 7) 5 (sized_graph 3 False) =
        Inr (sized_graph 3 False\<lparr>vertex := (vertex (sized_graph 3 False))[nat 0 := (vertex (sized_graph 3 False) ! nat 0)
               \<lparr>neighbors := neighbors (vertex (sized_graph 3 False) ! nat 0) @ [\<lparr>weight = 5, to = - 7\<rparr>]\<rparr>]\<rparr>)
   \<and> directed (sized_graph 3 True) \<and> in_vector 0 (vertex (sized_graph 3 True))
   \<and> in_vector 3 (vertex (sized_graph 3 True))
   \<and> (\<exists>g'. add_edge 0 3 0 (sized_graph 3 True) = Inr g'
         \<and> neighbors (vertex g' ! nat 0) = neighbors (vertex (sized_graph 3 True) ! nat 0) @ [\<lparr>weight = 0, to = 3\<rparr>])
   \<and> \<not> in_vector 4 (vertex (sized_graph 3 False))
   \<and> add_edge 4 1 0 (sized_graph 3 False) = Inl OutOfBounds
   \<and> \<not> in_vector 99 (vertex (sized_graph 3 True))
   \<and> add_edge 1 99 0 (sized_graph 3 True) = Inl OutOfBounds"
proof -
  have f: "length (vertex (sized_graph 3 True)) = nvertex (sized_graph 3 True) + 1"
    "\<not> directed (sized_graph 3 False)" "in_vector 0 (vertex (sized_graph 3 False))"
    "directed (sized_graph 3 True)" "in_vector 0 (vertex (sized_graph 3 True))"
    "in_vector 3 (vertex (sized_graph 3 True))" "in_vector 1 (vertex (sized_graph 3 True))"
    "\<not> in_vector 4 (vertex (sized_graph 3 False))"
    "\<not> in_vector 99 (vertex (sized_graph 3 True))"
    "nvertex (sized_graph 3 True) = 3"
    by (simp_all add: sized_graph_def in_vector_def)
  from add_edge_outcome [of "sized_graph 3 True" 1 2 0] f
  have a: "\<exists>g'. add_edge 1 2 0 (sized_graph 3 True) = Inr g'
         \<and> neighbors (vertex g' ! nat 1) = neighbors (vertex (sized_graph 3 True) ! nat 1) @ [\<lparr>weight = 0, to = 2\<rparr>]
         \<and> (\<forall>i. i \<noteq> nat 1 \<longrightarrow> neighbors (vertex g' ! i) = neighbors (vertex (sized_graph 3 True) ! i))
         \<and> length (vertex g') = length (vertex (sized_graph 3 True))"
    by simp
  from add_edge_outcome [of "sized_graph 3 False" 0 "- 7" 5] f
  have b: "add_edge 0 (- 7) 5 (sized_graph 3 False) =
        Inr (sized_graph 3 False\<lparr>vertex := (vertex (sized_graph 3 False))[nat 0 := (vertex (sized_graph 3 False) ! nat 0)
               \<lparr>neighbors := neighbors (vertex (sized_graph 3 False) ! nat 0) @ [\<lparr>weight = 5, to = - 7\<rparr>]\<rparr>]\<rparr>)"
    by blast
  from add_edge_outcome [of "sized_graph 3 True" 0 3 0] f
  have c: "\<exists>g'. add_edge 0 3 0 (sized_graph 3 True) = Inr g'
         \<and> neighbors (vertex g' ! nat 0) = neighbors (vertex (sized_graph 3 True) ! nat 0) @ [\<lparr>weight = 0, to = 3\<rparr>]"
    by blast
  from add_edge_outcome [of "sized_graph 3 False" 4 1 0] f
  have d: "add_edge 4 1 0 (sized_graph 3 False) = Inl OutOfBounds" by blast
  from add_edge_outcome [of "sized_graph 3 True" 1 99 0] f
  have e: "add_edge 1 99 0 (sized_graph 3 True) = Inl OutOfBounds" by blast
  from f a b c d e show ?thesis by blast
qed

text \<open>
  The claim as stated fails: with three vertices, the endpoint 99 of an undirected edge
  and the endpoint 0 are both outside \<open>[1, 3]\<close>, and both calls succeed and store the edge.
\<close>

theorem add_edge_out_of_range_accepted:
  "map_sum id (\<lambda>g. neighbors (vertex g ! 1)) (add_edge 1 99 0 (sized_graph 3 False))
     = Inr [\<lparr>weight = 0, to = 99\<rparr>]
   \<and> map_sum id (\<lambda>g. neighbors (vertex g ! 0)) (add_edge 0 1 0 (sized_graph 3 True))
     = Inr [\<lparr>weight = 0, to = 1\<rparr>]"
  by code_simp

section \<open>Component enumeration: claim C2\<close>

text \<open>
  Claim C2 says that on scenario C \<open>find_components\<close> reports the two components
  \<open>{1,2,3}\<close> and \<open>{4}\<close>. The code calls the public \<open>dfs\<close>, whose sweep goes on to
  every vertex not yet processed: the first traversal prints all four vertices under
  the heading of component 1, and no second component is reported.
\<close>

theorem find_components_scenario_C:
  "map_sum id cout (and_then scenario_C find_components) =
     Inr [Str ''component '', Num 1, Str '': '',
          Num 1, Chr (CHR '' ''), Num 2, Chr (CHR '' ''), Num 3, Chr (CHR '' ''),
          Num 4, Chr (CHR '' ''), Chr (CHR 0x0A)]"
  unfolding scenario_C_def by code_simp

section \<open>Repeated cycle checks: claim C3\<close>

text \<open>
  Claim C3 says that repeated calls of \<open>has_cycle\<close> on an unchanged directed graph
  return the same boolean and leave the indegree counters alone. The code decrements the
  counters of the graph itself: on the edges \<open>1 \<rightarrow> 2, 2 \<rightarrow> 3, 3 \<rightarrow> 2\<close> the first call
  returns true and lowers the indegree of vertex 2 from 2 to 1, and the second call
  returns false.
\<close>

theorem has_cycle_twice_differs:
  "map_sum id fst (and_then cycle_with_tail has_cycle) = Inr True
   \<and> map_sum id fst (and_then (and_then cycle_with_tail has_cycle) (\<lambda>(found, g). has_cycle g)) = Inr False
   \<and> map_sum id (map indegree \<circ> vertex) cycle_with_tail = Inr [0, 0, 2, 1]
   \<and> map_sum id (map indegree \<circ> vertex \<circ> snd) (and_then cycle_with_tail has_cycle) = Inr [0, 0, 1, 1]"
  unfolding cycle_with_tail_def by code_simp

section \<open>Traversing twice: claim C4\<close>

text \<open>
  Claim C4 says that a second \<open>bfs(start)\<close> without a reset emits no vertex. \<open>do_bfs\<close>
  does not test whether its start vertex was visited: on one vertex without edges, the
  second \<open>bfs(1)\<close> prints vertex 1 again.
\<close>

theorem bfs_twice_emits_start_again:
  "map_sum id cout (bfs 1 (sized_graph 1 False)) = Inr [Num 1, Chr (CHR '' '')]
   \<and> map_sum id cout (and_then (bfs 1 (sized_graph 1 False)) (bfs 1))
       = Inr [Num 1, Chr (CHR '' ''), Num 1, Chr (CHR '' '')]"
  by code_simp

section \<open>Undirected cycle detection: claim C6\<close>

text \<open>
  Claim C6. On scenario D, the triangle, \<open>has_cycle\<close> returns true, and the state it
  leaves shows the scan: vertices 1, 2, 3 discovered in that order, 1 the parent of 2 and
  2 the parent of 3; the scan ends at vertex 3, whose neighbour 1 is discovered and is
  not its parent. On scenario C, which has no cycle, it returns false: every discovered
  neighbour met is the parent. The rule it follows: in the loop over the edges of
  \<open>v\<close>, an edge to a vertex that is already discovered and is not the recorded parent
  of \<open>v\<close> ends the scan with true; an edge to the recorded parent of \<open>v\<close> is passed over.
\<close>

theorem has_cycle_scenario_D:
  "scenario_D = Inr undirected_triangle
   \<and> has_cycle undirected_triangle =
       Inr (True, undirected_triangle\<lparr>parent := [- 1, - 1, 1, 2], discovered := {1, 2, 3},
              trail := [ResetDiscovered, ResetProcessed, Discover 1, Discover 2, Discover 3]\<rparr>)
   \<and> map_sum id fst (and_then scenario_D has_cycle) = Inr True
   \<and> map_sum id (\<lambda>(found, g). (found, parent g, discovered g, trail g)) (and_then scenario_C has_cycle)
       = Inr (False, [- 1, - 1, 1, 2, - 1], {1, 2, 3, 4},
              [ResetDiscovered, ResetProcessed, Discover 1, Discover 2, Discover 3, Discover 4])
   \<and> (\<forall>v e es g. in_bitset (to e) \<and> nat (to e) \<in> discovered g \<and> in_vector v (parent g)
         \<longrightarrow> detect_undirected_cycle_edges v (e # es) g =
               (if parent g ! nat v \<noteq> to e then Inr (True, g)
                else detect_undirected_cycle_edges v es g))"
proof (intro conjI)
  show "scenario_D = Inr undirected_triangle"
    unfolding scenario_D_def by code_simp
  show "has_cycle undirected_triangle =
       Inr (True, undirected_triangle\<lparr>parent := [- 1, - 1, 1, 2], discovered := {1, 2, 3},
              trail := [ResetDiscovered, ResetProcessed, Discover 1, Discover 2, Discover 3]\<rparr>)"
    by code_simp
  show "map_sum id fst (and_then scenario_D has_cycle) = Inr True"
    unfolding scenario_D_def by code_simp
  show "map_sum id (\<lambda>(found, g). (found, parent g, discovered g, trail g)) (and_then scenario_C has_cycle)
       = Inr (False, [- 1, - 1, 1, 2, - 1], {1, 2, 3, 4},
              [ResetDiscovered, ResetProcessed, Discover 1, Discover 2, Discover 3, Discover 4])"
    unfolding scenario_C_def by code_simp
  show "\<forall>v e es g. in_bitset (to e) \<and> nat (to e) \<in> discovered g \<and> in_vector v (parent g)
         \<longrightarrow> detect_undirected_cycle_edges v (e # es) g =
               (if parent g ! nat v \<noteq> to e then Inr (True, g)
                else detect_undirected_cycle_edges v es g)"
    by simp
qed

theorem has_cycle_scenario_D_witness:
  "neighbors (vertex at_vertex_3 ! 3) = [\<lparr>weight = 0, to = 2\<rparr>, \<lparr>weight = 0, to = 1\<rparr>]
   \<and> parent at_vertex_3 ! 3 = 2
   \<and> in_bitset 2 \<and> nat 2 \<in> discovered at_vertex_3
   \<and> in_bitset 1 \<and> nat 1 \<in> discovered at_vertex_3
   \<and> in_vector 3 (parent at_vertex_3)
   \<and> detect_undirected_cycle_edges 3 (neighbors (vertex at_vertex_3 ! 3)) at_vertex_3
       = Inr (True, at_vertex_3)"
proof -
  have f: "neighbors (vertex at_vertex_3 ! 3) = [\<lparr>weight = 0, to = 2\<rparr>, \<lparr>weight = 0, to = 1\<rparr>]"
    "parent at_vertex_3 ! 3 = 2" "parent at_vertex_3 ! nat 3 = 2"
    "in_bitset 2" "nat 2 \<in> discovered at_vertex_3"
    "in_bitset 1" "nat 1 \<in> discovered at_vertex_3" "in_vector 3 (parent at_vertex_3)"
    by (simp_all add: at_vertex_3_def undirected_triangle_def sized_graph_def in_bitset_def
        in_vector_def MAX_VERTEX_def)
  note rule = has_cycle_scenario_D [THEN conjunct2, THEN conjunct2, THEN conjunct2, THEN conjunct2,
      rule_format]
  from rule [of "\<lparr>weight = 0, to = 2\<rparr>" at_vertex_3 3 "[\<lparr>weight = 0, to = 1\<rparr>]"] f
  have "detect_undirected_cycle_edges 3 [\<lparr>weight = 0, to = 2\<rparr>, \<lparr>weight = 0, to = 1\<rparr>] at_vertex_3
      = detect_undirected_cycle_edges 3 [\<lparr>weight = 0, to = 1\<rparr>] at_vertex_3"
    by simp
  also from rule [of "\<lparr>weight = 0, to = 1\<rparr>" at_vertex_3 3 "[]"] f
  have "detect_undirected_cycle_edges 3 [\<lparr>weight = 0, to = 1\<rparr>] at_vertex_3 = Inr (True, at_vertex_3)"
    by simp
  finally show ?thesis using f by simp
qed

section \<open>The cycle check and earlier traversals: claim C10\<close>

lemma unvisit_forgets:
  "unvisit (g\<lparr>discovered := d, processed := p\<rparr>) =
     g\<lparr>discovered := {}, processed := {}, trail := trail g @ [ResetDiscovered, ResetProcessed]\<rparr>"
  by (simp add: unvisit_def reset_discovered_def reset_processed_def)

text \<open>
  Claim C10. With \<open>nvertex > 0\<close>, \<open>has_cycle\<close> runs its detection on the state left by
  \<open>unvisit\<close>, in which both bitsets are empty; so two states of the graph that differ in
  the bitsets only give the same result, boolean and final state.
\<close>

theorem has_cycle_ignores_bitsets:
  assumes "0 < nvertex g"
  shows "has_cycle (g\<lparr>discovered := da, processed := pa\<rparr>)
           = has_cycle (g\<lparr>discovered := db, processed := pb\<rparr>)
         \<and> discovered (unvisit (g\<lparr>discovered := da, processed := pa\<rparr>)) = {}
         \<and> processed (unvisit (g\<lparr>discovered := da, processed := pa\<rparr>)) = {}
         \<and> has_cycle g =
             (if \<not> directed g then has_cycle_loop [1 ..< Suc (nvertex g)] False (unvisit g)
              else detect_directed_cycle (unvisit g))"
  using assms
  by (simp add: has_cycle_def Let_def unvisit_forgets)
    (simp add: unvisit_def reset_discovered_def reset_processed_def)

theorem has_cycle_ignores_bitsets_witness:
  "0 < nvertex (sized_graph 2 False)
   \<and> has_cycle (sized_graph 2 False\<lparr>discovered := {1, 2}, processed := {1}\<rparr>)
       = has_cycle (sized_graph 2 False\<lparr>discovered := {}, processed := {}\<rparr>)
   \<and> map_sum id fst (has_cycle (sized_graph 2 False\<lparr>discovered := {1, 2}, processed := {1}\<rparr>)) = Inr False"
proof -
  have n: "0 < nvertex (sized_graph 2 False)"
    by (simp add: sized_graph_def)
  have r: "map_sum id fst (has_cycle (sized_graph 2 False\<lparr>discovered := {1, 2}, processed := {1}\<rparr>)) = Inr False"
    by code_simp
  from n r has_cycle_ignores_bitsets [OF n, where da = "{1, 2}" and pa = "{1}" and db = "{}" and pb = "{}"] show ?thesis
    by simp
qed

section \<open>The bitsets along an execution: claim C9\<close>

lemma joined_pair_read: "read_graph [(1, 2)] (sized_graph 2 False) = Inr joined_pair"
  by code_simp


lemma points_not_Nil [simp]: "points ws b \<noteq> []"
  by (cases ws) auto

lemma points_snoc: "points (ws @ [w]) b = points ws b @ [apply_write w (last (points ws b))]"
  by (induction ws arbitrary: b) auto

lemma tracked_init: "processed g \<subseteq> discovered g \<Longrightarrow> tracked (discovered g, processed g) (trail g) g"
  by (simp add: tracked_def)

lemma tracked_inv: "tracked b0 t0 g \<Longrightarrow> processed g \<subseteq> discovered g"
proof -
  assume "tracked b0 t0 g"
  then obtain ws where l: "last (points ws b0) = (discovered g, processed g)"
    and a: "\<forall>b\<in>set (points ws b0). snd b \<subseteq> fst b"
    unfolding tracked_def by blast
  have "last (points ws b0) \<in> set (points ws b0)" by simp
  with a l show ?thesis by fastforce
qed

lemma tracked_set_discovered: "tracked b0 t0 g \<Longrightarrow> tracked b0 t0 (set_discovered i g)"
proof (unfold tracked_def [of b0 t0 "set_discovered i g"], frule tracked_def [THEN iffD1], elim exE conjE)
  fix ws
  assume "tracked b0 t0 g"
  from tracked_inv [OF this] have "processed g \<subseteq> discovered g" .
  moreover
  assume "trail g = t0 @ ws" "last (points ws b0) = (discovered g, processed g)"
    "\<forall>b\<in>set (points ws b0). snd b \<subseteq> fst b"
  ultimately show "\<exists>ws. trail (set_discovered i g) = t0 @ ws \<and>
         last (points ws b0) = (discovered (set_discovered i g), processed (set_discovered i g)) \<and>
         (\<forall>b\<in>set (points ws b0). snd b \<subseteq> fst b)"
    by (intro exI [of _ "ws @ [Discover i]"]) (auto simp: points_snoc)
qed

lemma tracked_set_processed:
  "tracked b0 t0 g \<Longrightarrow> i \<in> discovered g \<Longrightarrow> tracked b0 t0 (set_processed i g)"
proof (unfold tracked_def [of b0 t0 "set_processed i g"], frule tracked_def [THEN iffD1], elim exE conjE)
  fix ws
  assume "tracked b0 t0 g"
  from tracked_inv [OF this] have "processed g \<subseteq> discovered g" .
  moreover
  assume "i \<in> discovered g" "trail g = t0 @ ws" "last (points ws b0) = (discovered g, processed g)"
    "\<forall>b\<in>set (points ws b0). snd b \<subseteq> fst b"
  ultimately show "\<exists>ws. trail (set_processed i g) = t0 @ ws \<and>
         last (points ws b0) = (discovered (set_processed i g), processed (set_processed i g)) \<and>
         (\<forall>b\<in>set (points ws b0). snd b \<subseteq> fst b)"
    by (intro exI [of _ "ws @ [Process i]"]) (auto simp: points_snoc)
qed

lemma tracked_other [simp]:
  "tracked b0 t0 (print xs g) = tracked b0 t0 g"
  "tracked b0 t0 (g\<lparr>parent := ps\<rparr>) = tracked b0 t0 g"
  "tracked b0 t0 (g\<lparr>vertex := vs\<rparr>) = tracked b0 t0 g"
  by (simp_all add: tracked_def)

lemma tracked_during:
  assumes "tracked (discovered g, processed g) (trail g) g'"
  shows "(\<forall>b \<in> set (during g g'). snd b \<subseteq> fst b) \<and> last (during g g') = (discovered g', processed g')"
  using assms unfolding tracked_def during_def by auto

lemma step_ok_refl [simp]: "step_ok g g"
  by (simp add: step_ok_def)

lemma step_ok_trans: "step_ok g g1 \<Longrightarrow> step_ok g1 g2 \<Longrightarrow> step_ok g g2"
  unfolding step_ok_def by auto

lemma step_ok_set_discovered [simp]: "step_ok g (set_discovered i g)"
  by (auto simp: step_ok_def tracked_set_discovered)

lemma step_ok_set_processed: "i \<in> discovered g \<Longrightarrow> step_ok g (set_processed i g)"
  by (auto simp: step_ok_def tracked_set_processed)

lemma step_ok_print [simp]: "step_ok g (print xs g)"
  by (auto simp: step_ok_def)

lemma step_okD:
  "step_ok g g' \<Longrightarrow> discovered g \<subseteq> discovered g'"
  "step_ok g g' \<Longrightarrow> processed g \<subseteq> processed g'"
  "step_ok g g' \<Longrightarrow> vertex g' = vertex g"
  "step_ok g g' \<Longrightarrow> nvertex g' = nvertex g"
  "step_ok g g' \<Longrightarrow> tracked b0 t0 g \<Longrightarrow> tracked b0 t0 g'"
  "step_ok g g' \<Longrightarrow> parent g' = parent g"
  unfolding step_ok_def by blast+

lemma do_dfs_step:
  "do_dfs v g = Inr g' \<Longrightarrow> step_ok g g' \<and> in_bitset v \<and> nat v \<in> discovered g'"
  "do_dfs_edges es g = Inr g' \<Longrightarrow> step_ok g g'"
proof (induction v g and es g arbitrary: g' and g' rule: do_dfs_do_dfs_edges.induct)
  case (1 v g)
  show ?case
  proof (cases "in_bitset v \<and> nat v \<notin> discovered g")
    case False
    with 1(2) show ?thesis
      by (auto simp: do_dfs.simps split: if_splits)
  next
    case True
    define g1 where "g1 = print [Num v, Chr (CHR '' '')] (set_discovered (nat v) g)"
    from True 1(2) obtain g2 where
      g2: "do_dfs_edges (neighbors (vertex g1 ! nat v)) g1 = Inr g2" and
      g': "g' = set_processed (nat v) g2" and iv: "in_vector v (vertex g1)"
      by (auto simp: do_dfs.simps Let_def g1_def split: if_splits sum.splits)
    from 1(1) [of g1 g2] True iv g2 have s12: "step_ok g1 g2"
      by (simp add: g1_def)
    have s01: "step_ok g g1"
      unfolding g1_def by (rule step_ok_trans [OF step_ok_set_discovered step_ok_print])
    from step_okD(1) [OF s12] have d: "nat v \<in> discovered g2" by (auto simp: g1_def)
    from step_ok_trans [OF step_ok_trans [OF s01 s12] step_ok_set_processed [OF d]] d True
    show ?thesis by (simp add: g')
  qed
next
  case (2 g)
  then show ?case by simp
next
  case (3 e es g)
  from 3(3) obtain g1 where g1: "do_dfs (to e) g = Inr g1" and r: "do_dfs_edges es g1 = Inr g'"
    by (auto split: sum.splits)
  from 3(1) [OF g1] 3(2) [OF g1 r] show ?case by (blast intro: step_ok_trans)
qed

lemma dfs_sweep_step: "dfs_sweep is g = Inr g' \<Longrightarrow> step_ok g g'"
proof (induction "is" arbitrary: g)
  case Nil
  then show ?case by simp
next
  case (Cons i "is")
  show ?case
  proof (cases "i \<in> processed g")
    case True
    with Cons show ?thesis by (auto split: if_splits)
  next
    case False
    with Cons.prems obtain g1 where g1: "do_dfs (int i) g = Inr g1" and r: "dfs_sweep is g1 = Inr g'"
      by (auto split: if_splits sum.splits)
    from do_dfs_step(1) [OF g1] Cons.IH [OF r] show ?thesis by (blast intro: step_ok_trans)
  qed
qed

lemma dfs_step: "dfs v g = Inr g' \<Longrightarrow> step_ok g g'"
proof -
  assume a: "dfs v g = Inr g'"
  then obtain g1 where g1: "(if nat v \<le> nvertex g \<and> v > 0 then do_dfs v g else Inr g) = Inr g1"
    and r: "dfs_sweep [1 ..< Suc (nvertex g1)] g1 = Inr g'"
    by (auto simp: dfs_def split: sum.splits)
  from g1 have "step_ok g g1"
    by (auto split: if_splits dest: do_dfs_step(1))
  with dfs_sweep_step [OF r] show ?thesis by (blast intro: step_ok_trans)
qed

lemma do_bfs_edges_step:
  "do_bfs_edges es q g = Inr (q', g') \<Longrightarrow> \<forall>x \<in> set q. nat x \<in> discovered g \<Longrightarrow>
     step_ok g g' \<and> (\<forall>x \<in> set q'. nat x \<in> discovered g')"
proof (induction es arbitrary: q g)
  case Nil
  then show ?case by simp
next
  case (Cons e es)
  show ?case
  proof (cases "nat (to e) \<in> discovered g")
    case True
    with Cons show ?thesis by (auto split: if_splits)
  next
    case False
    define g1 where "g1 = set_discovered (nat (to e)) g"
    from False Cons.prems have r: "do_bfs_edges es (q @ [to e]) g1 = Inr (q', g')"
      by (auto simp: g1_def split: if_splits)
    from Cons.prems(2) have "\<forall>x \<in> set (q @ [to e]). nat x \<in> discovered g1"
      by (auto simp: g1_def)
    from Cons.IH [OF r this] have "step_ok g1 g'" "\<forall>x \<in> set q'. nat x \<in> discovered g'"
      by auto
    moreover have "step_ok g g1" by (simp add: g1_def)
    ultimately show ?thesis by (blast intro: step_ok_trans)
  qed
qed

lemma do_bfs_loop_step:
  "do_bfs_loop q g = Inr g' \<Longrightarrow> \<forall>x \<in> set q. nat x \<in> discovered g \<Longrightarrow> step_ok g g'"
proof (induction q g rule: do_bfs_loop.induct)
  case (1 q g)
  show ?case
  proof (cases "q = []")
    case True
    with 1(2) show ?thesis by (simp add: do_bfs_loop.simps)
  next
    case False
    define x where "x = hd q"
    from False 1(2) obtain q1 g1 where
      iv: "in_vector x (vertex g)" and
      e: "do_bfs_edges (neighbors (vertex g ! nat x)) q g = Inr (q1, g1)" and
      ib: "in_bitset x" and
      r: "do_bfs_loop (tl q1) (print [Num x, Chr (CHR '' '')] (set_processed (nat x) g1)) = Inr g'"
      by (subst (asm) do_bfs_loop.simps) (auto simp: Let_def x_def split: if_splits sum.splits)
    from do_bfs_edges_step [OF e 1(3)] have s1: "step_ok g g1" and q1: "\<forall>x \<in> set q1. nat x \<in> discovered g1"
      by auto
    from do_bfs_edges_queue [OF e] False have "x \<in> set q1" "q1 \<noteq> []"
      by (auto simp: x_def)
    with q1 have xd: "nat x \<in> discovered g1" by blast
    define g2 where "g2 = print [Num x, Chr (CHR '' '')] (set_processed (nat x) g1)"
    have s2: "step_ok g1 g2"
      unfolding g2_def by (rule step_ok_trans [OF step_ok_set_processed [OF xd] step_ok_print])
    have q2: "\<forall>x \<in> set (tl q1). nat x \<in> discovered g2"
      using q1 \<open>q1 \<noteq> []\<close> by (auto simp: g2_def dest: list.set_sel(2))
    from 1(1) [of x "(q1, g1)" q1 g1] False iv ib r e q2
    have "step_ok g2 g'" by (simp add: g2_def x_def)
    with s1 s2 show ?thesis by (blast intro: step_ok_trans)
  qed
qed

lemma do_bfs_step: "do_bfs start g = Inr g' \<Longrightarrow> step_ok g g'"
proof -
  assume a: "do_bfs start g = Inr g'"
  then have r: "do_bfs_loop [start] (set_discovered (nat start) g) = Inr g'"
    by (auto simp: do_bfs_def split: if_splits)
  have "step_ok (set_discovered (nat start) g) g'"
    by (rule do_bfs_loop_step [OF r]) simp
  then show ?thesis by (blast intro: step_ok_trans step_ok_set_discovered)
qed

lemma bfs_sweep_step: "bfs_sweep is g = Inr g' \<Longrightarrow> step_ok g g'"
proof (induction "is" arbitrary: g)
  case Nil
  then show ?case by simp
next
  case (Cons i "is")
  show ?case
  proof (cases "i \<in> processed g")
    case True
    with Cons show ?thesis by (auto split: if_splits)
  next
    case False
    with Cons.prems obtain g1 where g1: "do_bfs (int i) g = Inr g1" and r: "bfs_sweep is g1 = Inr g'"
      by (auto split: if_splits sum.splits)
    from do_bfs_step [OF g1] Cons.IH [OF r] show ?thesis by (blast intro: step_ok_trans)
  qed
qed

lemma bfs_step: "bfs start g = Inr g' \<Longrightarrow> step_ok g g'"
proof -
  assume a: "bfs start g = Inr g'"
  then obtain g1 where g1: "(if start > 0 \<and> nat start \<le> nvertex g then do_bfs start g else Inr g) = Inr g1"
    and r: "bfs_sweep [1 ..< Suc (nvertex g1)] g1 = Inr g'"
    by (auto simp: bfs_def split: sum.splits)
  from g1 have "step_ok g g1"
    by (auto split: if_splits dest: do_bfs_step)
  with bfs_sweep_step [OF r] show ?thesis by (blast intro: step_ok_trans)
qed

lemma find_components_loop_step: "find_components_loop is nc g = Inr g' \<Longrightarrow> step_ok g g'"
proof (induction "is" arbitrary: nc g)
  case Nil
  then show ?case by simp
next
  case (Cons i "is")
  show ?case
  proof (cases "i \<in> discovered g")
    case True
    with Cons show ?thesis by (auto split: if_splits)
  next
    case False
    define g0 where "g0 = print [Str ''component '', Num nc, Str '': ''] g"
    from False Cons.prems obtain g1 where g1: "dfs (int i) g0 = Inr g1"
      and r: "find_components_loop is (nc + 1) (print [Chr (CHR 0x0A)] g1) = Inr g'"
      by (auto simp: g0_def split: if_splits sum.splits)
    have "step_ok g g0" by (simp add: g0_def)
    moreover note dfs_step [OF g1]
    moreover have "step_ok g1 (print [Chr (CHR 0x0A)] g1)" by simp
    moreover note Cons.IH [OF r]
    ultimately show ?thesis by (blast intro: step_ok_trans)
  qed
qed


lemma find_components_step: "find_components g = Inr g' \<Longrightarrow> step_ok g g'"
  unfolding find_components_def by (rule find_components_loop_step)

lemma detect_undirected_cycle_tracked:
  "detect_undirected_cycle v g = Inr (b, g') \<Longrightarrow> tracked b0 t0 g \<Longrightarrow> tracked b0 t0 g'"
  "detect_undirected_cycle_edges v es g = Inr (b, g') \<Longrightarrow> tracked b0 t0 g \<Longrightarrow> tracked b0 t0 g'"
proof (induction v g and v es g arbitrary: b g' and b g'
    rule: detect_undirected_cycle_detect_undirected_cycle_edges.induct)
  case (1 v g)
  show ?case
  proof (cases "in_bitset v \<and> nat v \<notin> discovered g")
    case False
    with 1(2,3) show ?thesis
      by (auto simp: detect_undirected_cycle.simps split: if_splits)
  next
    case True
    define g1 where "g1 = set_discovered (nat v) g"
    from True 1(2) have iv: "in_vector v (vertex g1)" and
      r: "detect_undirected_cycle_edges v (neighbors (vertex g1 ! nat v)) g1 = Inr (b, g')"
      by (auto simp: detect_undirected_cycle.simps Let_def g1_def split: if_splits)
    from 1(3) have "tracked b0 t0 g1"
      unfolding g1_def by (rule tracked_set_discovered)
    with 1(1) [of g1 b g'] True iv r show ?thesis
      by (simp add: g1_def)
  qed
next
  case (2 v g)
  then show ?case by simp
next
  case (3 v e es g)
  show ?case
  proof (cases "nat (to e) \<notin> discovered g")
    case True
    define g0 where "g0 = g\<lparr>parent := (parent g)[nat (to e) := v]\<rparr>"
    from True 3(4) obtain found g1 where
      ib: "in_bitset (to e)" and iv: "in_vector (to e) (parent g)" and
      c: "detect_undirected_cycle (to e) g0 = Inr (found, g1)" and
      r: "if found then (b, g') = (True, g1) else detect_undirected_cycle_edges v es g1 = Inr (b, g')"
      by (auto simp: g0_def split: if_splits sum.splits)
    from 3(5) have "tracked b0 t0 g0" by (simp add: g0_def)
    with 3(1) [of found g1] ib True iv c have t1: "tracked b0 t0 g1"
      by (simp add: g0_def)
    show ?thesis
    proof (cases found)
      case True
      with r t1 show ?thesis by simp
    next
      case False
      with r have r': "detect_undirected_cycle_edges v es g1 = Inr (b, g')" by simp
      from 3(2) ib True iv c False r' t1 show ?thesis by (simp add: g0_def)
    qed
  next
    case False
    with 3(4) have ib: "in_bitset (to e)" and iv: "in_vector v (parent g)" and
      r: "if parent g ! nat v \<noteq> to e then (b, g') = (True, g)
          else detect_undirected_cycle_edges v es g = Inr (b, g')"
      by (auto split: if_splits)
    show ?thesis
    proof (cases "parent g ! nat v \<noteq> to e")
      case True
      with r 3(5) show ?thesis by simp
    next
      case F: False
      with r 3(3) [of b g'] 3(5) ib False iv show ?thesis by simp
    qed
  qed
qed

lemma has_cycle_loop_tracked:
  "has_cycle_loop is c g = Inr (b, g') \<Longrightarrow> tracked b0 t0 g \<Longrightarrow> tracked b0 t0 g'"
proof (induction "is" arbitrary: c g)
  case Nil
  then show ?case by simp
next
  case (Cons i "is")
  show ?case
  proof (cases "i \<in> discovered g")
    case True
    with Cons show ?thesis by (auto split: if_splits)
  next
    case False
    with Cons.prems(1) obtain found g1 where
      d: "detect_undirected_cycle (int i) g = Inr (found, g1)" and
      r: "has_cycle_loop is (c \<or> found) g1 = Inr (b, g')"
      by (auto split: if_splits sum.splits)
    from Cons.IH [OF r detect_undirected_cycle_tracked(1) [OF d Cons.prems(2)]] show ?thesis .
  qed
qed

lemma detect_directed_cycle_tracked:
  "detect_directed_cycle g = Inr (b, g') \<Longrightarrow> tracked b0 t0 g \<Longrightarrow> tracked b0 t0 g'"
  by (auto simp: detect_directed_cycle_def split: sum.splits)

lemma during_unvisit:
  "during g (unvisit g) =
     [(discovered g, processed g), ({}, processed g), ({}, {})]"
  by (simp add: during_def unvisit_def reset_discovered_def reset_processed_def)

lemma has_cycle_points:
  assumes "has_cycle g = Inr (found, g')"
  shows "(\<forall>b \<in> set (drop 2 (during g g')). snd b \<subseteq> fst b)
         \<and> (processed g \<subseteq> discovered g \<longrightarrow> processed g' \<subseteq> discovered g')"
proof (cases "0 < nvertex g")
  case False
  with assms show ?thesis by (simp add: has_cycle_def during_def)
next
  case True
  define g1 where "g1 = unvisit g"
  have t1: "trail g1 = trail g @ [ResetDiscovered, ResetProcessed]"
    and b1: "discovered g1 = {}" "processed g1 = {}"
    by (simp_all add: g1_def unvisit_def reset_discovered_def reset_processed_def)
  from b1 have "tracked ({}, {}) (trail g1) g1"
    by (simp add: tracked_def)
  moreover from True assms have
    "(if \<not> directed g1 then has_cycle_loop [1 ..< Suc (nvertex g1)] False g1
      else detect_directed_cycle g1) = Inr (found, g')"
    unfolding has_cycle_def Let_def g1_def by (simp only: if_True)
  ultimately have t: "tracked ({}, {}) (trail g1) g'"
    by (auto split: if_splits intro: has_cycle_loop_tracked detect_directed_cycle_tracked)
  then obtain ws where ws: "trail g' = trail g1 @ ws"
    "last (points ws ({}, {})) = (discovered g', processed g')"
    "\<forall>b \<in> set (points ws ({}, {})). snd b \<subseteq> fst b"
    unfolding tracked_def by blast
  have "during g g' = (discovered g, processed g) # ({}, processed g) # points ws ({}, {})"
    by (simp add: during_def ws(1) t1)
  with ws(3) tracked_inv [OF t] show ?thesis by simp
qed

subsection \<open>The operations return on graphs in range\<close>

lemma in_range_index:
  assumes "in_range g" and "0 \<le> v" and "v \<le> int (nvertex g)"
  shows "in_bitset v" and "in_vector v (vertex g)" and "in_vector v (parent g)"
    and "\<forall>e \<in> set (neighbors (vertex g ! nat v)). 0 \<le> to e \<and> to e \<le> int (nvertex g)"
proof -
  from assms show "in_bitset v" "in_vector v (vertex g)" "in_vector v (parent g)"
    by (auto simp: in_range_def in_bitset_def in_vector_def)
  from assms have "nat v < length (vertex g)" by (auto simp: in_range_def)
  then have "vertex g ! nat v \<in> set (vertex g)" by simp
  with assms(1) show "\<forall>e \<in> set (neighbors (vertex g ! nat v)). 0 \<le> to e \<and> to e \<le> int (nvertex g)"
    unfolding in_range_def by blast
qed

lemma in_range_step: "in_range g \<Longrightarrow> step_ok g g' \<Longrightarrow> in_range g'"
  by (simp add: in_range_def step_okD(3,4,6))

lemma in_range_prim [simp]:
  "in_range (set_discovered i g) = in_range g"
  "in_range (set_processed i g) = in_range g"
  "in_range (print xs g) = in_range g"
  by (simp_all add: in_range_def)

lemma do_dfs_returns:
  "in_range g \<Longrightarrow> 0 \<le> v \<Longrightarrow> v \<le> int (nvertex g) \<Longrightarrow> \<exists>g'. do_dfs v g = Inr g'"
  "in_range g \<Longrightarrow> \<forall>e \<in> set es. 0 \<le> to e \<and> to e \<le> int (nvertex g) \<Longrightarrow>
     \<exists>g'. do_dfs_edges es g = Inr g'"
proof (induction v g and es g rule: do_dfs_do_dfs_edges.induct)
  case (1 v g)
  note ix = in_range_index [OF 1(2,3,4)]
  show ?case
  proof (cases "nat v \<in> discovered g")
    case True
    with ix show ?thesis by (simp add: do_dfs.simps)
  next
    case False
    define g1 where "g1 = print [Num v, Chr (CHR '' '')] (set_discovered (nat v) g)"
    have r1: "in_range g1" using 1(2) by (simp add: g1_def)
    have v1: "in_vector v (vertex g1)" using ix by (simp add: g1_def)
    have "\<exists>g'. do_dfs_edges (neighbors (vertex g1 ! nat v)) g1 = Inr g'"
      by (rule 1(1) [of g1]) (use False ix r1 v1 in \<open>simp_all add: g1_def\<close>)
    then obtain g2 where "do_dfs_edges (neighbors (vertex g1 ! nat v)) g1 = Inr g2" ..
    with False ix v1 show ?thesis
      by (simp add: do_dfs.simps Let_def g1_def)
  qed
next
  case (2 g)
  show ?case by simp
next
  case (3 e es g)
  from 3(4) have e: "0 \<le> to e" "to e \<le> int (nvertex g)" by simp_all
  from 3(1) [OF 3(3) e] obtain g1 where g1: "do_dfs (to e) g = Inr g1" ..
  from do_dfs_step(1) [OF g1] have s: "step_ok g g1" by blast
  have "\<exists>g'. do_dfs_edges es g1 = Inr g'"
    by (rule 3(2) [OF g1 in_range_step [OF 3(3) s]]) (use 3(4) step_okD(4) [OF s] in simp)
  with g1 show ?case by simp
qed

lemma dfs_sweep_returns:
  "in_range g \<Longrightarrow> \<forall>i \<in> set is. i \<le> nvertex g \<Longrightarrow> \<exists>g'. dfs_sweep is g = Inr g'"
proof (induction "is" arbitrary: g)
  case Nil
  show ?case by simp
next
  case (Cons i "is")
  from Cons.prems have i: "0 \<le> int i" "int i \<le> int (nvertex g)" by simp_all
  note ix = in_range_index(1) [OF Cons.prems(1) i]
  show ?case
  proof (cases "i \<in> processed g")
    case True
    with Cons ix show ?thesis by simp
  next
    case False
    from do_dfs_returns(1) [OF Cons.prems(1) i] obtain g1 where g1: "do_dfs (int i) g = Inr g1" ..
    from do_dfs_step(1) [OF g1] have s: "step_ok g g1" by blast
    have "\<exists>g'. dfs_sweep is g1 = Inr g'"
      by (rule Cons.IH [OF in_range_step [OF Cons.prems(1) s]])
        (use Cons.prems(2) step_okD(4) [OF s] in simp)
    with False ix g1 show ?thesis by simp
  qed
qed

lemma dfs_returns:
  assumes "in_range g"
  shows "\<exists>g'. dfs v g = Inr g'"
proof -
  have "\<exists>g1. (if nat v \<le> nvertex g \<and> v > 0 then do_dfs v g else Inr g) = Inr g1 \<and> step_ok g g1"
  proof (cases "nat v \<le> nvertex g \<and> v > 0")
    case True
    then have "0 \<le> v" "v \<le> int (nvertex g)" by auto
    from do_dfs_returns(1) [OF assms this] obtain g1 where "do_dfs v g = Inr g1" ..
    with True do_dfs_step(1) [OF this] show ?thesis by auto
  next
    case False
    then show ?thesis by auto
  qed
  then obtain g1 where
    g1: "(if nat v \<le> nvertex g \<and> v > 0 then do_dfs v g else Inr g) = Inr g1" and s: "step_ok g g1"
    by blast
  have "\<exists>g'. dfs_sweep [1 ..< Suc (nvertex g1)] g1 = Inr g'"
    by (rule dfs_sweep_returns [OF in_range_step [OF assms s]]) auto
  with g1 show ?thesis by (auto simp: dfs_def)
qed

lemma do_bfs_edges_returns:
  "in_range g \<Longrightarrow> \<forall>e \<in> set es. 0 \<le> to e \<and> to e \<le> int (nvertex g) \<Longrightarrow>
     \<forall>x \<in> set q. 0 \<le> x \<and> x \<le> int (nvertex g) \<Longrightarrow>
     \<exists>q' g'. do_bfs_edges es q g = Inr (q', g') \<and> (\<forall>x \<in> set q'. 0 \<le> x \<and> x \<le> int (nvertex g))"
proof (induction es arbitrary: q g)
  case Nil
  then show ?case by simp
next
  case (Cons e es)
  from Cons.prems(2) have e: "0 \<le> to e" "to e \<le> int (nvertex g)" by simp_all
  note ix = in_range_index(1) [OF Cons.prems(1) e]
  show ?case
  proof (cases "nat (to e) \<in> discovered g")
    case True
    with Cons ix show ?thesis by simp
  next
    case False
    have "\<exists>q' g'. do_bfs_edges es (q @ [to e]) (set_discovered (nat (to e)) g) = Inr (q', g')
        \<and> (\<forall>x \<in> set q'. 0 \<le> x \<and> x \<le> int (nvertex (set_discovered (nat (to e)) g)))"
      by (rule Cons.IH) (use Cons.prems e in simp_all)
    with False ix show ?thesis by simp
  qed
qed

lemma do_bfs_loop_returns:
  "in_range g \<Longrightarrow> \<forall>x \<in> set q. 0 \<le> x \<and> x \<le> int (nvertex g) \<Longrightarrow>
     \<forall>x \<in> set q. nat x \<in> discovered g \<Longrightarrow> \<exists>g'. do_bfs_loop q g = Inr g'"
proof (induction q g rule: do_bfs_loop.induct)
  case (1 q g)
  show ?case
  proof (cases "q = []")
    case True
    then show ?thesis by (simp add: do_bfs_loop.simps)
  next
    case False
    define x where "x = hd q"
    from False 1(3) have xr: "0 \<le> x" "x \<le> int (nvertex g)" by (simp_all add: x_def)
    note ix = in_range_index [OF 1(2) xr]
    from do_bfs_edges_returns [OF 1(2) ix(4) 1(3)] obtain q1 g1 where
      e: "do_bfs_edges (neighbors (vertex g ! nat x)) q g = Inr (q1, g1)" and
      q1: "\<forall>x \<in> set q1. 0 \<le> x \<and> x \<le> int (nvertex g)"
      by blast
    from do_bfs_edges_step [OF e 1(4)] have s: "step_ok g g1"
      and d1: "\<forall>x \<in> set q1. nat x \<in> discovered g1" by blast+
    define g2 where "g2 = print [Num x, Chr (CHR '' '')] (set_processed (nat x) g1)"
    have r2: "in_range g2" using in_range_step [OF 1(2) s] by (simp add: g2_def)
    have n2: "nvertex g2 = nvertex g" using step_okD(4) [OF s] by (simp add: g2_def)
    have t: "set (tl q1) \<subseteq> set q1" by (cases q1) auto
    have "\<exists>g'. do_bfs_loop (tl q1) g2 = Inr g'"
    proof (rule 1(1) [of x "(q1, g1)" q1 g1, folded g2_def])
      show "\<forall>x \<in> set (tl q1). 0 \<le> x \<and> x \<le> int (nvertex g2)"
        using q1 n2 t by auto
      show "\<forall>x \<in> set (tl q1). nat x \<in> discovered g2"
        using d1 t by (auto simp: g2_def)
    qed (use False e ix r2 in \<open>simp_all add: x_def\<close>)
    with False e ix show ?thesis
      by (subst do_bfs_loop.simps) (simp add: Let_def x_def [symmetric] g2_def)
  qed
qed

lemma do_bfs_returns:
  assumes "in_range g" and "0 \<le> start" and "start \<le> int (nvertex g)"
  shows "\<exists>g'. do_bfs start g = Inr g'"
proof -
  have "\<exists>g'. do_bfs_loop [start] (set_discovered (nat start) g) = Inr g'"
    by (rule do_bfs_loop_returns) (use assms in simp_all)
  with in_range_index(1) [OF assms] show ?thesis by (simp add: do_bfs_def)
qed

lemma bfs_sweep_returns:
  "in_range g \<Longrightarrow> \<forall>i \<in> set is. i \<le> nvertex g \<Longrightarrow> \<exists>g'. bfs_sweep is g = Inr g'"
proof (induction "is" arbitrary: g)
  case Nil
  show ?case by simp
next
  case (Cons i "is")
  from Cons.prems have i: "0 \<le> int i" "int i \<le> int (nvertex g)" by simp_all
  note ix = in_range_index(1) [OF Cons.prems(1) i]
  show ?case
  proof (cases "i \<in> processed g")
    case True
    with Cons ix show ?thesis by simp
  next
    case False
    from do_bfs_returns [OF Cons.prems(1) i] obtain g1 where g1: "do_bfs (int i) g = Inr g1" ..
    note s = do_bfs_step [OF g1]
    have "\<exists>g'. bfs_sweep is g1 = Inr g'"
      by (rule Cons.IH [OF in_range_step [OF Cons.prems(1) s]])
        (use Cons.prems(2) step_okD(4) [OF s] in simp)
    with False ix g1 show ?thesis by simp
  qed
qed

lemma bfs_returns:
  assumes "in_range g"
  shows "\<exists>g'. bfs start g = Inr g'"
proof -
  have "\<exists>g1. (if start > 0 \<and> nat start \<le> nvertex g then do_bfs start g else Inr g) = Inr g1 \<and> step_ok g g1"
  proof (cases "start > 0 \<and> nat start \<le> nvertex g")
    case True
    then have "0 \<le> start" "start \<le> int (nvertex g)" by auto
    from do_bfs_returns [OF assms this] obtain g1 where "do_bfs start g = Inr g1" ..
    with True do_bfs_step [OF this] show ?thesis by auto
  next
    case False
    then show ?thesis by auto
  qed
  then obtain g1 where
    g1: "(if start > 0 \<and> nat start \<le> nvertex g then do_bfs start g else Inr g) = Inr g1" and s: "step_ok g g1"
    by blast
  have "\<exists>g'. bfs_sweep [1 ..< Suc (nvertex g1)] g1 = Inr g'"
    by (rule bfs_sweep_returns [OF in_range_step [OF assms s]]) auto
  with g1 show ?thesis by (auto simp: bfs_def)
qed

lemma find_components_loop_returns:
  "in_range g \<Longrightarrow> \<forall>i \<in> set is. i \<le> nvertex g \<Longrightarrow> \<exists>g'. find_components_loop is nc g = Inr g'"
proof (induction "is" arbitrary: nc g)
  case Nil
  show ?case by simp
next
  case (Cons i "is")
  from Cons.prems have i: "0 \<le> int i" "int i \<le> int (nvertex g)" by simp_all
  note ix = in_range_index(1) [OF Cons.prems(1) i]
  show ?case
  proof (cases "i \<in> discovered g")
    case True
    with Cons ix show ?thesis by simp
  next
    case False
    define g0 where "g0 = print [Str ''component '', Num nc, Str '': ''] g"
    have "in_range g0" using Cons.prems(1) by (simp add: g0_def)
    from dfs_returns [OF this] obtain g1 where g1: "dfs (int i) g0 = Inr g1" ..
    note s = dfs_step [OF g1]
    have "\<exists>g'. find_components_loop is (nc + 1) (print [Chr (CHR 0x0A)] g1) = Inr g'"
      by (rule Cons.IH)
        (use Cons.prems in_range_step [OF \<open>in_range g0\<close> s] step_okD(4) [OF s] in \<open>simp_all add: g0_def\<close>)
    with False ix g1 show ?thesis by (simp add: g0_def)
  qed
qed

lemma find_components_returns:
  assumes "in_range g"
  shows "\<exists>g'. find_components g = Inr g'"
  unfolding find_components_def by (rule find_components_loop_returns [OF assms]) auto

lemma detect_undirected_cycle_returns:
  "in_range g \<Longrightarrow> 0 \<le> v \<Longrightarrow> v \<le> int (nvertex g) \<Longrightarrow>
     \<exists>b g'. detect_undirected_cycle v g = Inr (b, g') \<and> in_range g' \<and> nvertex g' = nvertex g"
  "in_range g \<Longrightarrow> 0 \<le> v \<Longrightarrow> v \<le> int (nvertex g) \<Longrightarrow>
     \<forall>e \<in> set es. 0 \<le> to e \<and> to e \<le> int (nvertex g) \<Longrightarrow>
     \<exists>b g'. detect_undirected_cycle_edges v es g = Inr (b, g') \<and> in_range g' \<and> nvertex g' = nvertex g"
proof (induction v g and v es g rule: detect_undirected_cycle_detect_undirected_cycle_edges.induct)
  case (1 v g)
  note ix = in_range_index [OF 1(2,3,4)]
  show ?case
  proof (cases "nat v \<in> discovered g")
    case True
    with ix 1(2) show ?thesis by (auto simp: detect_undirected_cycle.simps)
  next
    case False
    define g1 where "g1 = set_discovered (nat v) g"
    have "\<exists>b g'. detect_undirected_cycle_edges v (neighbors (vertex g1 ! nat v)) g1 = Inr (b, g')
        \<and> in_range g' \<and> nvertex g' = nvertex g1"
      by (rule 1(1) [of g1]) (use False ix 1(2,3,4) in \<open>simp_all add: g1_def\<close>)
    with False ix show ?thesis
      by (simp add: detect_undirected_cycle.simps Let_def g1_def)
  qed
next
  case (2 v g)
  then show ?case by auto
next
  case (3 v e es g)
  from 3(7) have e: "0 \<le> to e" "to e \<le> int (nvertex g)" by simp_all
  note ie = in_range_index [OF 3(4) e]
  note iv = in_range_index [OF 3(4,5,6)]
  show ?case
  proof (cases "nat (to e) \<in> discovered g")
    case True
    show ?thesis
    proof (cases "parent g ! nat v \<noteq> to e")
      case T: True
      with True ie iv 3(4) show ?thesis by auto
    next
      case False
      have "\<exists>b g'. detect_undirected_cycle_edges v es g = Inr (b, g') \<and> in_range g' \<and> nvertex g' = nvertex g"
        by (rule 3(3)) (use True False ie iv 3(4,5,6,7) in simp_all)
      with True False ie iv show ?thesis by simp
    qed
  next
    case False
    define g0 where "g0 = g\<lparr>parent := (parent g)[nat (to e) := v]\<rparr>"
    have r0: "in_range g0" "nvertex g0 = nvertex g"
      using 3(4) by (simp_all add: g0_def in_range_def)
    have "\<exists>b g'. detect_undirected_cycle (to e) g0 = Inr (b, g') \<and> in_range g' \<and> nvertex g' = nvertex g0"
      by (rule 3(1) [folded g0_def]) (use False ie e r0 in simp_all)
    then obtain found g1 where
      c: "detect_undirected_cycle (to e) g0 = Inr (found, g1)" and r1: "in_range g1" and
      n1: "nvertex g1 = nvertex g"
      using r0 by auto
    show ?thesis
    proof (cases found)
      case True
      with False ie c r1 n1 show ?thesis by (auto simp: g0_def)
    next
      case F: False
      have "\<exists>b g'. detect_undirected_cycle_edges v es g1 = Inr (b, g') \<and> in_range g' \<and> nvertex g' = nvertex g1"
        by (rule 3(2) [of "(found, g1)" found g1])
          (use False ie c F r1 n1 3(5,6,7) in \<open>simp_all add: g0_def\<close>)
      with False ie c F n1 show ?thesis by (simp add: g0_def)
    qed
  qed
qed

lemma has_cycle_loop_returns:
  "in_range g \<Longrightarrow> \<forall>i \<in> set is. i \<le> nvertex g \<Longrightarrow> \<exists>b g'. has_cycle_loop is c g = Inr (b, g')"
proof (induction "is" arbitrary: c g)
  case Nil
  show ?case by simp
next
  case (Cons i "is")
  from Cons.prems have i: "0 \<le> int i" "int i \<le> int (nvertex g)" by simp_all
  note ix = in_range_index(1) [OF Cons.prems(1) i]
  show ?case
  proof (cases "i \<in> discovered g")
    case True
    with Cons ix show ?thesis by simp
  next
    case False
    from detect_undirected_cycle_returns(1) [OF Cons.prems(1) i] obtain found g1 where
      d: "detect_undirected_cycle (int i) g = Inr (found, g1)" and r1: "in_range g1" and
      n1: "nvertex g1 = nvertex g"
      by blast
    have "\<exists>b g'. has_cycle_loop is (c \<or> found) g1 = Inr (b, g')"
      by (rule Cons.IH [OF r1]) (use Cons.prems(2) n1 in simp)
    with False ix d show ?thesis by simp
  qed
qed

lemma edges_in_range_update:
  assumes "edges_in_range n vs"
  shows "edges_in_range n (vs[i := (vs ! i)\<lparr>indegree := d\<rparr>])"
proof (cases "i < length vs")
  case False
  with assms show ?thesis by (simp add: list_update_beyond)
next
  case True
  then have m: "vs ! i \<in> set vs" by simp
  have "\<forall>e \<in> set (neighbors v). 0 \<le> to e \<and> to e \<le> int n"
    if "v \<in> set (vs[i := (vs ! i)\<lparr>indegree := d\<rparr>])" for v
  proof -
    from that set_update_subset_insert [of vs i "(vs ! i)\<lparr>indegree := d\<rparr>"]
    have "v = (vs ! i)\<lparr>indegree := d\<rparr> \<or> v \<in> set vs" by blast
    with assms m show ?thesis unfolding edges_in_range_def by auto
  qed
  with assms show ?thesis unfolding edges_in_range_def by simp
qed

lemma kahn_seed_returns:
  "\<forall>i \<in> set is. i < length vs \<Longrightarrow> \<forall>x \<in> set s. 0 \<le> x \<and> nat x < length vs \<Longrightarrow>
     \<exists>s'. kahn_seed is s vs = Inr s' \<and> (\<forall>x \<in> set s'. 0 \<le> x \<and> nat x < length vs)"
  by (induction "is" arbitrary: s) (auto simp: in_vector_def)

lemma kahn_edges_returns:
  "edges_in_range n vs \<Longrightarrow> \<forall>e \<in> set es. 0 \<le> to e \<and> to e \<le> int n \<Longrightarrow>
     \<forall>x \<in> set s. 0 \<le> x \<and> x \<le> int n \<Longrightarrow>
     \<exists>s' vs'. kahn_edges es s vs = Inr (s', vs') \<and> edges_in_range n vs'
       \<and> (\<forall>x \<in> set s'. 0 \<le> x \<and> x \<le> int n)"
proof (induction es arbitrary: s vs)
  case Nil
  then show ?case by simp
next
  case (Cons e es)
  from Cons.prems(2) have e: "0 \<le> to e" "to e \<le> int n" by simp_all
  with Cons.prems(1) have iv: "in_vector (to e) vs"
    by (auto simp: edges_in_range_def in_vector_def)
  define vs1 where "vs1 = vs[nat (to e) := (vs ! nat (to e))\<lparr>indegree := indegree (vs ! nat (to e)) - 1\<rparr>]"
  have r1: "edges_in_range n vs1"
    unfolding vs1_def by (rule edges_in_range_update [OF Cons.prems(1)])
  let ?s1 = "if 0 = indegree (vs1 ! nat (to e)) then to e # s else s"
  have "\<exists>s' vs'. kahn_edges es ?s1 vs1 = Inr (s', vs') \<and> edges_in_range n vs'
       \<and> (\<forall>x \<in> set s'. 0 \<le> x \<and> x \<le> int n)"
    by (rule Cons.IH [OF r1]) (use Cons.prems(2,3) e in auto)
  moreover have "kahn_edges (e # es) s vs = kahn_edges es ?s1 vs1"
    using iv by (simp add: Let_def vs1_def)
  ultimately show ?case by simp
qed

lemma kahn_loop_returns:
  "edges_in_range n vs \<Longrightarrow> \<forall>x \<in> set s. 0 \<le> x \<and> x \<le> int n \<Longrightarrow>
     \<exists>r. kahn_loop s np order vs = Inr r"
proof (induction s np order vs rule: kahn_loop.induct)
  case (1 s np order vs)
  show ?case
  proof (cases s)
    case Nil
    then show ?thesis by (simp add: kahn_loop.simps)
  next
    case (Cons v s1)
    with 1(3) have v: "0 \<le> v" "v \<le> int n" and s1: "\<forall>x \<in> set s1. 0 \<le> x \<and> x \<le> int n"
      by simp_all
    from v 1(2) have iv: "in_vector v vs" and m: "vs ! nat v \<in> set vs"
      by (auto simp: edges_in_range_def in_vector_def)
    with 1(2) have es: "\<forall>e \<in> set (neighbors (vs ! nat v)). 0 \<le> to e \<and> to e \<le> int n"
      unfolding edges_in_range_def by blast
    from kahn_edges_returns [OF 1(2) es s1] obtain s2 vs2 where
      e: "kahn_edges (neighbors (vs ! nat v)) s1 vs = Inr (s2, vs2)" and
      r2: "edges_in_range n vs2" and q2: "\<forall>x \<in> set s2. 0 \<le> x \<and> x \<le> int n"
      by blast
    have "\<exists>r. kahn_loop s2 (np + 1) (order @ [v]) vs2 = Inr r"
      by (rule 1(1) [of v s1 "(s2, vs2)" s2 vs2]) (use Cons iv e r2 q2 in simp_all)
    moreover have "kahn_loop s np order vs = kahn_loop s2 (np + 1) (order @ [v]) vs2"
      using Cons iv e by (subst kahn_loop.simps) (simp add: Let_def)
    ultimately show ?thesis by simp
  qed
qed

lemma detect_directed_cycle_returns:
  assumes "in_range g"
  shows "\<exists>b g'. detect_directed_cycle g = Inr (b, g')"
proof -
  from assms have r: "edges_in_range (nvertex g) (vertex g)"
    by (simp add: in_range_def edges_in_range_def)
  then have len: "length (vertex g) = nvertex g + 1" by (simp add: edges_in_range_def)
  have "\<exists>s'. kahn_seed [1 ..< Suc (nvertex g)] [] (vertex g) = Inr s'
      \<and> (\<forall>x \<in> set s'. 0 \<le> x \<and> nat x < length (vertex g))"
    by (rule kahn_seed_returns) (use len in auto)
  then obtain s where s: "kahn_seed [1 ..< Suc (nvertex g)] [] (vertex g) = Inr s"
    and q: "\<forall>x \<in> set s. 0 \<le> x \<and> nat x < length (vertex g)"
    by blast
  from q len have "\<forall>x \<in> set s. 0 \<le> x \<and> x \<le> int (nvertex g)" by auto
  from kahn_loop_returns [OF r this] obtain res where "kahn_loop s 0 [] (vertex g) = Inr res" ..
  with s show ?thesis
    by (cases res) (simp add: detect_directed_cycle_def kahn_def)
qed

lemma has_cycle_returns:
  assumes "in_range g"
  shows "\<exists>b g'. has_cycle g = Inr (b, g')"
proof (cases "0 < nvertex g")
  case False
  then show ?thesis by (auto simp: has_cycle_def)
next
  case True
  have u: "in_range (unvisit g)" "nvertex (unvisit g) = nvertex g"
    using assms by (simp_all add: in_range_def unvisit_def reset_discovered_def reset_processed_def)
  show ?thesis
  proof (cases "directed (unvisit g)")
    case D: True
    with True detect_directed_cycle_returns [OF u(1)] show ?thesis
      by (simp add: has_cycle_def Let_def)
  next
    case D: False
    have "\<exists>b g'. has_cycle_loop [1 ..< Suc (nvertex (unvisit g))] False (unvisit g) = Inr (b, g')"
      by (rule has_cycle_loop_returns [OF u(1)]) auto
    with True D show ?thesis
      unfolding has_cycle_def Let_def by (simp only: if_True) simp
  qed
qed

lemma in_range_sized_graph: "n \<le> MAX_VERTEX \<Longrightarrow> in_range (sized_graph n d)"
  by (simp add: in_range_def sized_graph_def)

text \<open>
  Claim C9, as amended. When \<open>processed \<subseteq> discovered\<close> holds at the call, it holds
  after every single bitset write of \<open>bfs\<close>, \<open>dfs\<close> and \<open>find_components\<close>; the last of
  these points is the state returned. It holds when \<open>unvisit\<close> returns. In \<open>has_cycle\<close>
  it holds at every point from the end of the initial \<open>unvisit\<close> on (the points after
  the first two writes), and on return if it held at the call. On a graph in range all
  four operations return.
\<close>

theorem processed_implies_discovered_at_every_point:
  "(processed g \<subseteq> discovered g \<and> bfs start g = Inr gb \<longrightarrow>
      (\<forall>b \<in> set (during g gb). snd b \<subseteq> fst b) \<and> last (during g gb) = (discovered gb, processed gb))
   \<and> (processed g \<subseteq> discovered g \<and> dfs v g = Inr gd \<longrightarrow>
      (\<forall>b \<in> set (during g gd). snd b \<subseteq> fst b) \<and> last (during g gd) = (discovered gd, processed gd))
   \<and> (processed g \<subseteq> discovered g \<and> find_components g = Inr gc \<longrightarrow>
      (\<forall>b \<in> set (during g gc). snd b \<subseteq> fst b) \<and> last (during g gc) = (discovered gc, processed gc))
   \<and> processed (unvisit g) \<subseteq> discovered (unvisit g)
   \<and> (has_cycle g = Inr (found, gh) \<longrightarrow>
      (\<forall>b \<in> set (drop 2 (during g gh)). snd b \<subseteq> fst b)
      \<and> (processed g \<subseteq> discovered g \<longrightarrow> processed gh \<subseteq> discovered gh))
   \<and> (in_range g \<longrightarrow>
      (\<exists>g'. bfs start g = Inr g') \<and> (\<exists>g'. dfs v g = Inr g') \<and> (\<exists>g'. find_components g = Inr g')
      \<and> (\<exists>b g'. has_cycle g = Inr (b, g')))"
proof (intro conjI impI; (elim conjE)?)
  assume i: "processed g \<subseteq> discovered g" and r: "bfs start g = Inr gb"
  from tracked_during [OF step_okD(5) [OF bfs_step [OF r] tracked_init [OF i]]]
  show "\<forall>b \<in> set (during g gb). snd b \<subseteq> fst b" "last (during g gb) = (discovered gb, processed gb)"
    by blast+
next
  assume i: "processed g \<subseteq> discovered g" and r: "dfs v g = Inr gd"
  from tracked_during [OF step_okD(5) [OF dfs_step [OF r] tracked_init [OF i]]]
  show "\<forall>b \<in> set (during g gd). snd b \<subseteq> fst b" "last (during g gd) = (discovered gd, processed gd)"
    by blast+
next
  assume i: "processed g \<subseteq> discovered g" and r: "find_components g = Inr gc"
  from tracked_during [OF step_okD(5) [OF find_components_step [OF r] tracked_init [OF i]]]
  show "\<forall>b \<in> set (during g gc). snd b \<subseteq> fst b" "last (during g gc) = (discovered gc, processed gc)"
    by blast+
next
  show "processed (unvisit g) \<subseteq> discovered (unvisit g)"
    by (simp add: unvisit_def reset_discovered_def reset_processed_def)
next
  assume r: "has_cycle g = Inr (found, gh)"
  from has_cycle_points [OF r]
  show "\<forall>b \<in> set (drop 2 (during g gh)). snd b \<subseteq> fst b"
    "processed g \<subseteq> discovered g \<Longrightarrow> processed gh \<subseteq> discovered gh"
    by blast+
next
  assume r: "in_range g"
  show "\<exists>g'. bfs start g = Inr g'" by (rule bfs_returns [OF r])
  show "\<exists>g'. dfs v g = Inr g'" by (rule dfs_returns [OF r])
  show "\<exists>g'. find_components g = Inr g'" by (rule find_components_returns [OF r])
  show "\<exists>b g'. has_cycle g = Inr (b, g')" by (rule has_cycle_returns [OF r])
qed


theorem processed_implies_discovered_at_every_point_witness:
  "processed joined_pair \<subseteq> discovered joined_pair \<and> in_range joined_pair
   \<and> bfs 1 joined_pair = Inr (joined_pair\<lparr>discovered := {1, 2}, processed := {1, 2},
         cout := [Num 1, Chr (CHR '' ''), Num 2, Chr (CHR '' '')],
         trail := [Discover 1, Discover 2, Process 1, Process 2]\<rparr>)
   \<and> list_all (\<lambda>b. snd b \<subseteq> fst b) (during joined_pair (joined_pair\<lparr>discovered := {1, 2}, processed := {1, 2},
         cout := [Num 1, Chr (CHR '' ''), Num 2, Chr (CHR '' '')],
         trail := [Discover 1, Discover 2, Process 1, Process 2]\<rparr>))
   \<and> dfs 1 joined_pair = Inr (joined_pair\<lparr>discovered := {1, 2}, processed := {1, 2},
         cout := [Num 1, Chr (CHR '' ''), Num 2, Chr (CHR '' '')],
         trail := [Discover 1, Discover 2, Process 2, Process 1]\<rparr>)
   \<and> list_all (\<lambda>b. snd b \<subseteq> fst b) (during joined_pair (joined_pair\<lparr>discovered := {1, 2}, processed := {1, 2},
         cout := [Num 1, Chr (CHR '' ''), Num 2, Chr (CHR '' '')],
         trail := [Discover 1, Discover 2, Process 2, Process 1]\<rparr>))
   \<and> find_components joined_pair = Inr (joined_pair\<lparr>discovered := {1, 2}, processed := {1, 2},
         cout := [Str ''component '', Num 1, Str '': '', Num 1, Chr (CHR '' ''), Num 2,
                  Chr (CHR '' ''), Chr (CHR 0x0A)],
         trail := [Discover 1, Discover 2, Process 2, Process 1]\<rparr>)
   \<and> list_all (\<lambda>b. snd b \<subseteq> fst b) (during joined_pair (joined_pair\<lparr>discovered := {1, 2}, processed := {1, 2},
         cout := [Str ''component '', Num 1, Str '': '', Num 1, Chr (CHR '' ''), Num 2,
                  Chr (CHR '' ''), Chr (CHR 0x0A)],
         trail := [Discover 1, Discover 2, Process 2, Process 1]\<rparr>))
   \<and> has_cycle joined_pair = Inr (False, joined_pair\<lparr>parent := [- 1, - 1, 1], discovered := {1, 2},
         trail := [ResetDiscovered, ResetProcessed, Discover 1, Discover 2]\<rparr>)
   \<and> list_all (\<lambda>b. snd b \<subseteq> fst b) (drop 2 (during joined_pair (joined_pair\<lparr>parent := [- 1, - 1, 1], discovered := {1, 2},
         trail := [ResetDiscovered, ResetProcessed, Discover 1, Discover 2]\<rparr>)))"
proof -
  have i: "processed joined_pair \<subseteq> discovered joined_pair"
    by (simp add: joined_pair_def sized_graph_def)
  have ir: "in_range joined_pair"
    by code_simp
  have b: "bfs 1 joined_pair = Inr (joined_pair\<lparr>discovered := {1, 2}, processed := {1, 2},
         cout := [Num 1, Chr (CHR '' ''), Num 2, Chr (CHR '' '')],
         trail := [Discover 1, Discover 2, Process 1, Process 2]\<rparr>)"
    by code_simp
  have d: "dfs 1 joined_pair = Inr (joined_pair\<lparr>discovered := {1, 2}, processed := {1, 2},
         cout := [Num 1, Chr (CHR '' ''), Num 2, Chr (CHR '' '')],
         trail := [Discover 1, Discover 2, Process 2, Process 1]\<rparr>)"
    by code_simp
  have c: "find_components joined_pair = Inr (joined_pair\<lparr>discovered := {1, 2}, processed := {1, 2},
         cout := [Str ''component '', Num 1, Str '': '', Num 1, Chr (CHR '' ''), Num 2,
                  Chr (CHR '' ''), Chr (CHR 0x0A)],
         trail := [Discover 1, Discover 2, Process 2, Process 1]\<rparr>)"
    by code_simp
  have h: "has_cycle joined_pair = Inr (False, joined_pair\<lparr>parent := [- 1, - 1, 1], discovered := {1, 2},
         trail := [ResetDiscovered, ResetProcessed, Discover 1, Discover 2]\<rparr>)"
    by code_simp
  from processed_implies_discovered_at_every_point
    [where g = joined_pair and start = 1 and v = 1 and found = False,
     of "joined_pair\<lparr>discovered := {1, 2}, processed := {1, 2},
         cout := [Num 1, Chr (CHR '' ''), Num 2, Chr (CHR '' '')],
         trail := [Discover 1, Discover 2, Process 1, Process 2]\<rparr>"
        "joined_pair\<lparr>discovered := {1, 2}, processed := {1, 2},
         cout := [Num 1, Chr (CHR '' ''), Num 2, Chr (CHR '' '')],
         trail := [Discover 1, Discover 2, Process 2, Process 1]\<rparr>"
        "joined_pair\<lparr>discovered := {1, 2}, processed := {1, 2},
         cout := [Str ''component '', Num 1, Str '': '', Num 1, Chr (CHR '' ''), Num 2,
                  Chr (CHR '' ''), Chr (CHR 0x0A)],
         trail := [Discover 1, Discover 2, Process 2, Process 1]\<rparr>"
        "joined_pair\<lparr>parent := [- 1, - 1, 1], discovered := {1, 2},
         trail := [ResetDiscovered, ResetProcessed, Discover 1, Discover 2]\<rparr>"]
    i ir b d c h
  show ?thesis unfolding list_all_iff by blast
qed


text \<open>
  The claim as stated fails inside \<open>unvisit\<close>, which clears \<open>_discovered\<close> one
  statement before \<open>_processed\<close>. After \<open>dfs(1)\<close> on a single vertex, vertex 1 is
  discovered and processed; between the two resets it is processed and not discovered.
\<close>

theorem unvisit_breaks_invariant_between_resets:
  "map_sum id (\<lambda>g. during g (unvisit g)) (dfs 1 (sized_graph 1 False))
     = Inr [({1}, {1}), ({}, {1}), ({}, {})]
   \<and> map_sum id (\<lambda>g. list_all (\<lambda>b. snd b \<subseteq> fst b) (during g (unvisit g))) (dfs 1 (sized_graph 1 False))
     = Inr False"
  by code_simp

section \<open>Traversing twice: the depth-first half of claim C4\<close>

lemma dfs_sweep_covers:
  "dfs_sweep is g = Inr g' \<Longrightarrow>
     \<forall>i \<in> set is. in_bitset (int i) \<and> (i \<in> processed g' \<or> i \<in> discovered g')"
proof (induction "is" arbitrary: g)
  case Nil
  then show ?case by simp
next
  case (Cons i "is")
  from Cons.prems have ib: "in_bitset (int i)" by (auto split: if_splits)
  show ?case
  proof (cases "i \<in> processed g")
    case True
    with Cons.prems ib have r: "dfs_sweep is g = Inr g'" by simp
    from step_okD(2) [OF dfs_sweep_step [OF r]] True Cons.IH [OF r] ib show ?thesis by auto
  next
    case False
    with Cons.prems obtain g1 where g1: "do_dfs (int i) g = Inr g1" and r: "dfs_sweep is g1 = Inr g'"
      by (auto split: if_splits sum.splits)
    from do_dfs_step(1) [OF g1] have "i \<in> discovered g1" by simp
    with step_okD(1) [OF dfs_sweep_step [OF r]] Cons.IH [OF r] ib show ?thesis by auto
  qed
qed

lemma dfs_sweep_nothing_left:
  "\<forall>i \<in> set is. in_bitset (int i) \<and> (i \<in> processed g \<or> i \<in> discovered g) \<Longrightarrow>
     dfs_sweep is g = Inr g"
  by (induction "is") (auto simp: do_dfs.simps)

text \<open>
  The half of claim C4 that holds: a second \<open>dfs\<close> from the same start, with no reset in
  between, returns the state it was given: no bit is set and nothing is printed.
\<close>

lemma dfs_twice:
  assumes "dfs v g = Inr g'"
  shows "dfs v g' = Inr g'"
proof -
  from assms obtain g1 where
    g1: "(if nat v \<le> nvertex g \<and> v > 0 then do_dfs v g else Inr g) = Inr g1" and
    r: "dfs_sweep [1 ..< Suc (nvertex g1)] g1 = Inr g'"
    by (auto simp: dfs_def split: sum.splits)
  have n: "nvertex g' = nvertex g" "nvertex g' = nvertex g1"
    using step_okD(4) [OF dfs_step [OF assms]] step_okD(4) [OF dfs_sweep_step [OF r]] by simp_all
  have s: "dfs_sweep [1 ..< Suc (nvertex g')] g' = Inr g'"
    using dfs_sweep_covers [OF r] by (intro dfs_sweep_nothing_left) (simp only: n(2))
  have "(if nat v \<le> nvertex g' \<and> v > 0 then do_dfs v g' else Inr g') = Inr g'"
  proof (cases "nat v \<le> nvertex g \<and> v > 0")
    case True
    with g1 have "do_dfs v g = Inr g1" by simp
    from do_dfs_step(1) [OF this] step_okD(1) [OF dfs_sweep_step [OF r]]
    have "in_bitset v" "nat v \<in> discovered g'" by auto
    then show ?thesis by (simp add: do_dfs.simps)
  next
    case False
    then show ?thesis by (auto simp: n(1))
  qed
  with s show ?thesis by (simp add: dfs_def)
qed




section \<open>Directed cycle detection: claims C5 and C7\<close>

lemma directed_path_read: "read_graph [(1, 2), (2, 3)] (sized_graph 3 True) = Inr directed_path"
  by code_simp

lemma directed_triangle_read:
  "read_graph [(1, 2), (2, 3), (3, 1)] (sized_graph 3 True) = Inr directed_triangle"
  by code_simp




lemma targets_update_indegree:
  "targets (vs[i := (vs ! i)\<lparr>indegree := d\<rparr>]) u = targets vs u"
  by (cases "i < length vs"; cases "nat u = i") (simp_all add: targets_def list_update_beyond)

lemma kahn_edges_inner:
  assumes "kahn_inner n vs0 v es s order vs"
  shows "\<exists>s' vs'. kahn_edges es s vs = Inr (s', vs') \<and> kahn_inner n vs0 v [] s' order vs'"
  using assms
proof (induction es arbitrary: s vs)
  case Nil
  then show ?case by simp
next
  case (Cons e es)
  define w where "w = to e"
  define c where "c = edge_count vs0 ({1 .. int n} - set order - {v}) w + count_list (map to es) w"
  define vs1 where "vs1 = vs[nat w := (vs ! nat w)\<lparr>indegree := indegree (vs ! nat w) - 1\<rparr>]"
  from Cons.prems have
    len: "length vs = n + 1" and
    tg: "\<forall>u. targets vs u = targets vs0 u" and
    di: "distinct (v # s @ order)" and
    su: "set (v # s @ order) \<subseteq> {1 .. int n}" and
    es: "to ` set (e # es) \<subseteq> {1 .. int n}" and
    cn: "\<forall>w \<in> {1 .. int n}. indegree (vs ! nat w) =
           int (edge_count vs0 ({1 .. int n} - set order - {v}) w + count_list (map to (e # es)) w)" and
    ze: "\<forall>w \<in> {1 .. int n}. (indegree (vs ! nat w) = 0) = (w \<in> set (v # s @ order))"
    unfolding kahn_inner_def by blast+
  from es have wV: "w \<in> {1 .. int n}" by (simp add: w_def)
  with len have iv: "in_vector w vs" and i: "nat w < length vs"
    by (auto simp: in_vector_def)
  from cn wV have old: "indegree (vs ! nat w) = int c + 1"
    by (simp add: c_def w_def)
  then have "indegree (vs ! nat w) \<noteq> 0" by linarith
  moreover from ze wV have "(indegree (vs ! nat w) = 0) = (w \<in> set (v # s @ order))" by blast
  ultimately have fresh: "w \<notin> set (v # s @ order)" by blast
  have new: "indegree (vs1 ! nat w) = int c"
    using i old by (simp add: vs1_def)
  have other: "vs1 ! nat x = vs ! nat x" if "x \<in> {1 .. int n}" "x \<noteq> w" for x
  proof -
    from that wV have "nat w \<noteq> nat x" by auto
    then show ?thesis by (simp add: vs1_def)
  qed
  have len1: "length vs1 = n + 1" using len by (simp add: vs1_def)
  have tg1: "\<forall>u. targets vs1 u = targets vs0 u"
    using tg by (simp add: vs1_def targets_update_indegree)
  have cn1: "\<forall>x \<in> {1 .. int n}. indegree (vs1 ! nat x) =
           int (edge_count vs0 ({1 .. int n} - set order - {v}) x + count_list (map to es) x)"
  proof
    fix x assume x: "x \<in> {1 .. int n}"
    show "indegree (vs1 ! nat x) =
           int (edge_count vs0 ({1 .. int n} - set order - {v}) x + count_list (map to es) x)"
    proof (cases "x = w")
      case True
      with new show ?thesis by (simp add: c_def)
    next
      case False
      with other [OF x False] cn x show ?thesis by (simp add: w_def)
    qed
  qed
  let ?s1 = "if 0 = indegree (vs1 ! nat w) then w # s else s"
  have step: "kahn_edges (e # es) s vs = kahn_edges es ?s1 vs1"
    using iv by (simp add: Let_def w_def vs1_def)
  have "kahn_inner n vs0 v es ?s1 order vs1"
  proof (cases "c = 0")
    case True
    have "\<forall>x \<in> {1 .. int n}. (indegree (vs1 ! nat x) = 0) = (x \<in> set (v # (w # s) @ order))"
    proof
      fix x assume x: "x \<in> {1 .. int n}"
      show "(indegree (vs1 ! nat x) = 0) = (x \<in> set (v # (w # s) @ order))"
      proof (cases "x = w")
        case True
        with new \<open>c = 0\<close> show ?thesis by simp
      next
        case False
        with other [OF x False] ze x show ?thesis by simp
      qed
    qed
    with True new len1 tg1 di su es cn1 fresh wV show ?thesis
      unfolding kahn_inner_def by simp
  next
    case False
    have "\<forall>x \<in> {1 .. int n}. (indegree (vs1 ! nat x) = 0) = (x \<in> set (v # s @ order))"
    proof
      fix x assume x: "x \<in> {1 .. int n}"
      show "(indegree (vs1 ! nat x) = 0) = (x \<in> set (v # s @ order))"
      proof (cases "x = w")
        case True
        with new \<open>c \<noteq> 0\<close> fresh show ?thesis by simp
      next
        case False
        with other [OF x False] ze x show ?thesis by simp
      qed
    qed
    with False new len1 tg1 di su es cn1 show ?thesis
      unfolding kahn_inner_def by simp
  qed
  from Cons.IH [OF this] step show ?case by simp
qed


lemma edge_count_remove:
  assumes "finite U" and "v \<in> U"
  shows "edge_count vs U w = edge_count vs (U - {v}) w + count_list (targets vs v) w"
  unfolding edge_count_def using sum.remove [OF assms, of "\<lambda>u. count_list (targets vs u) w"]
  by simp

lemma edge_count_zero:
  assumes "finite U" and "edge_count vs U w = 0" and "u \<in> U"
  shows "w \<notin> set (targets vs u)"
proof -
  from assms have "count_list (targets vs u) w = 0"
    unfolding edge_count_def by simp
  then show ?thesis by (simp add: count_list_0_iff)
qed

lemma edge_count_positive:
  assumes "finite U" and "0 < edge_count vs U w"
  shows "\<exists>u \<in> U. w \<in> set (targets vs u)"
proof (rule ccontr)
  assume "\<not> (\<exists>u \<in> U. w \<in> set (targets vs u))"
  then have "\<forall>u \<in> U. count_list (targets vs u) w = 0"
    by (simp add: count_list_0_iff)
  then have "edge_count vs U w = 0"
    unfolding edge_count_def by simp
  with assms(2) show False by simp
qed

lemma kahn_outer_pop:
  assumes o: "kahn_outer n vs0 (v # s1) order vs"
    and st: "\<forall>u \<in> {1 .. int n}. set (targets vs0 u) \<subseteq> {1 .. int n}"
  shows "in_vector v vs \<and> kahn_inner n vs0 v (neighbors (vs ! nat v)) s1 order vs
         \<and> (\<forall>u \<in> {1 .. int n}. v \<in> set (targets vs0 u) \<longrightarrow> u \<in> set order)"
proof -
  let ?V = "{1 .. int n}"
  from o have
    len: "length vs = n + 1" and
    tg: "\<forall>u. targets vs u = targets vs0 u" and
    di: "distinct ((v # s1) @ order)" and
    su: "set ((v # s1) @ order) \<subseteq> ?V" and
    cn: "\<forall>w \<in> ?V. indegree (vs ! nat w) = int (edge_count vs0 (?V - set order) w)" and
    ze: "\<forall>w \<in> ?V. (indegree (vs ! nat w) = 0) = (w \<in> set ((v # s1) @ order))"
    unfolding kahn_outer_def by blast+
  from su have vV: "v \<in> ?V" by simp
  with len have iv: "in_vector v vs" by (auto simp: in_vector_def)
  from di vV have vU: "v \<in> ?V - set order" by simp
  have fin: "finite (?V - set order)" by simp
  have tv: "map to (neighbors (vs ! nat v)) = targets vs0 v"
    using tg by (simp add: targets_def)
  then have "to ` set (neighbors (vs ! nat v)) = set (targets vs0 v)"
    by (metis set_map)
  with st vV have es: "to ` set (neighbors (vs ! nat v)) \<subseteq> ?V" by blast
  have cn': "\<forall>w \<in> ?V. indegree (vs ! nat w) =
      int (edge_count vs0 (?V - set order - {v}) w + count_list (map to (neighbors (vs ! nat v))) w)"
    using cn edge_count_remove [OF fin vU] by (simp add: tv)
  from ze vV have "indegree (vs ! nat v) = 0" by simp
  with cn vV have z: "edge_count vs0 (?V - set order) v = 0" by simp
  have pre: "\<forall>u \<in> ?V. v \<in> set (targets vs0 u) \<longrightarrow> u \<in> set order"
    using edge_count_zero [OF fin z] by blast
  from len tg di su es cn' ze have "kahn_inner n vs0 v (neighbors (vs ! nat v)) s1 order vs"
    unfolding kahn_inner_def by simp
  with iv pre show ?thesis by blast
qed

lemma kahn_inner_done:
  assumes i: "kahn_inner n vs0 v [] s order vs"
    and o: "\<forall>j < length order. \<forall>u \<in> {1 .. int n}.
           order ! j \<in> set (targets vs0 u) \<longrightarrow> u \<in> set (take j order)"
    and pre: "\<forall>u \<in> {1 .. int n}. v \<in> set (targets vs0 u) \<longrightarrow> u \<in> set order"
  shows "kahn_outer n vs0 s (order @ [v]) vs"
proof -
  let ?V = "{1 .. int n}"
  have eq: "?V - set order - {v} = ?V - set (order @ [v])" by auto
  have t: "\<forall>j < length (order @ [v]). \<forall>u \<in> ?V.
           (order @ [v]) ! j \<in> set (targets vs0 u) \<longrightarrow> u \<in> set (take j (order @ [v]))"
  proof (intro allI impI ballI)
    fix j u
    assume j: "j < length (order @ [v])" and u: "u \<in> ?V"
      and m: "(order @ [v]) ! j \<in> set (targets vs0 u)"
    show "u \<in> set (take j (order @ [v]))"
    proof (cases "j < length order")
      case True
      with o u m show ?thesis by (simp add: nth_append)
    next
      case False
      with j have "j = length order" by simp
      with pre u m show ?thesis by simp
    qed
  qed
  from i have "length vs = n + 1" "\<forall>u. targets vs u = targets vs0 u"
    "distinct (s @ order @ [v])" "set (s @ order @ [v]) \<subseteq> ?V"
    "\<forall>w \<in> ?V. indegree (vs ! nat w) = int (edge_count vs0 (?V - set (order @ [v])) w)"
    "\<forall>w \<in> ?V. (indegree (vs ! nat w) = 0) = (w \<in> set (s @ order @ [v]))"
    unfolding kahn_inner_def eq [symmetric] by auto
  with t show ?thesis unfolding kahn_outer_def by simp
qed

lemma kahn_loop_outer:
  assumes "kahn_outer n vs0 s order vs"
    and "\<forall>u \<in> {1 .. int n}. set (targets vs0 u) \<subseteq> {1 .. int n}"
  shows "\<exists>np' order' vs'. kahn_loop s np order vs = Inr (np', order', vs')
           \<and> kahn_outer n vs0 [] order' vs' \<and> np' + length order = np + length order'"
  using assms
proof (induction s np order vs rule: kahn_loop.induct)
  case (1 s np order vs)
  show ?case
  proof (cases s)
    case Nil
    with 1(2) show ?thesis by (simp add: kahn_loop.simps)
  next
    case (Cons v s1)
    from kahn_outer_pop [OF 1(2) [unfolded Cons] 1(3)] have
      iv: "in_vector v vs" and
      inn: "kahn_inner n vs0 v (neighbors (vs ! nat v)) s1 order vs" and
      pre: "\<forall>u \<in> {1 .. int n}. v \<in> set (targets vs0 u) \<longrightarrow> u \<in> set order"
      by blast+
    from kahn_edges_inner [OF inn] obtain s2 vs2 where
      e: "kahn_edges (neighbors (vs ! nat v)) s1 vs = Inr (s2, vs2)" and
      d: "kahn_inner n vs0 v [] s2 order vs2"
      by blast
    from 1(2) have o: "\<forall>j < length order. \<forall>u \<in> {1 .. int n}.
           order ! j \<in> set (targets vs0 u) \<longrightarrow> u \<in> set (take j order)"
      unfolding kahn_outer_def by blast
    have out: "kahn_outer n vs0 s2 (order @ [v]) vs2"
      by (rule kahn_inner_done [OF d o pre])
    have "\<exists>np' order' vs'. kahn_loop s2 (np + 1) (order @ [v]) vs2 = Inr (np', order', vs')
           \<and> kahn_outer n vs0 [] order' vs' \<and> np' + length (order @ [v]) = np + 1 + length order'"
      by (rule 1(1) [of v s1 "(s2, vs2)" s2 vs2]) (use Cons iv e out 1(3) in simp_all)
    then obtain np' order' vs' where
      r: "kahn_loop s2 (np + 1) (order @ [v]) vs2 = Inr (np', order', vs')" and
      k: "kahn_outer n vs0 [] order' vs'" and
      c: "np' + length (order @ [v]) = np + 1 + length order'"
      by blast
    have "kahn_loop s np order vs = kahn_loop s2 (np + 1) (order @ [v]) vs2"
      using Cons iv e by (subst kahn_loop.simps) (simp add: Let_def)
    with r k c show ?thesis by simp
  qed
qed

lemma kahn_seed_result:
  "\<forall>i \<in> set is. i < length vs \<Longrightarrow>
     kahn_seed is s vs = Inr (rev (map int (filter (\<lambda>i. indegree (vs ! i) = 0) is)) @ s)"
  by (induction "is" arbitrary: s) (auto simp: in_vector_def)

lemma image_int_interval: "int ` {1 ..< Suc n} = {1 .. int n}"
proof
  show "int ` {1 ..< Suc n} \<subseteq> {1 .. int n}" by auto
  show "{1 .. int n} \<subseteq> int ` {1 ..< Suc n}"
  proof
    fix x assume "x \<in> {1 .. int n}"
    then have "x = int (nat x)" "nat x \<in> {1 ..< Suc n}" by auto
    then show "x \<in> int ` {1 ..< Suc n}" by blast
  qed
qed

lemma counted_targets:
  assumes "counted g"
  shows "\<forall>u \<in> {1 .. int (nvertex g)}. set (targets (vertex g) u) \<subseteq> {1 .. int (nvertex g)}"
proof (intro ballI subsetI)
  fix u w
  assume "u \<in> {1 .. int (nvertex g)}" "w \<in> set (targets (vertex g) u)"
  moreover from assms have
    "\<forall>u \<in> {1 .. int (nvertex g)}. \<forall>w \<in> set (targets (vertex g) u). 1 \<le> w \<and> w \<le> int (nvertex g)"
    unfolding counted_def by blast
  ultimately have "1 \<le> w \<and> w \<le> int (nvertex g)" by blast
  then show "w \<in> {1 .. int (nvertex g)}" by simp
qed

text \<open>What the elimination returns on a graph whose counters are the numbers of edges.\<close>

lemma kahn_counted:
  assumes "counted g"
  shows "\<exists>order vs. kahn (nvertex g) (vertex g) = Inr (length order, order, vs)
           \<and> kahn_outer (nvertex g) (vertex g) [] order vs"
proof -
  let ?n = "nvertex g" and ?vs = "vertex g"
  let ?V = "{1 .. int ?n}"
  let ?s = "rev (map int (filter (\<lambda>i. indegree (?vs ! i) = 0) [1 ..< Suc ?n]))"
  from assms have len: "length ?vs = ?n + 1"
    and cn: "\<forall>v \<in> ?V. indegree (?vs ! nat v) = int (edge_count ?vs ?V v)"
    unfolding counted_def by blast+
  from assms have st: "\<forall>u \<in> ?V. set (targets ?vs u) \<subseteq> ?V"
    by (rule counted_targets)
  have seed: "kahn_seed [1 ..< Suc ?n] [] ?vs = Inr ?s"
    using kahn_seed_result [of "[1 ..< Suc ?n]" ?vs "[]"] len by (simp del: upt_Suc)
  have ds: "distinct ?s"
    by (simp add: distinct_map inj_on_def)
  have ss: "set ?s = {w \<in> ?V. indegree (?vs ! nat w) = 0}"
  proof -
    have "set ?s = int ` {i \<in> {1 ..< Suc ?n}. indegree (?vs ! i) = 0}" by auto
    also have "\<dots> = {w \<in> int ` {1 ..< Suc ?n}. indegree (?vs ! nat w) = 0}" by auto
    finally show ?thesis by (simp only: image_int_interval)
  qed
  have "kahn_outer ?n ?vs ?s [] ?vs"
    unfolding kahn_outer_def using len cn ds ss by auto
  from kahn_loop_outer [OF this st, of 0] seed show ?thesis
    by (auto simp: kahn_def)
qed

lemma appears_before_trans:
  assumes "distinct xs" "appears_before xs a b" "appears_before xs b c"
  shows "appears_before xs a c"
proof -
  from assms(2) obtain i j where ij: "i < j" "j < length xs" "xs ! i = a" "xs ! j = b"
    unfolding appears_before_def by blast
  from assms(3) obtain j' k where jk: "j' < k" "k < length xs" "xs ! j' = b" "xs ! k = c"
    unfolding appears_before_def by blast
  from jk have "j' < length xs" by simp
  with ij jk assms(1) have "j = j'"
    by (metis nth_eq_iff_index_eq)
  with ij jk show ?thesis unfolding appears_before_def by (intro exI [of _ i] exI [of _ k]) simp
qed

lemma appears_before_irrefl:
  assumes "distinct xs"
  shows "\<not> appears_before xs a a"
proof
  assume "appears_before xs a a"
  then obtain i j where "i < j" "j < length xs" "xs ! i = a" "xs ! j = a"
    unfolding appears_before_def by blast
  then have "i < length xs" "i \<noteq> j" "xs ! i = xs ! j" "j < length xs" by simp_all
  with assms show False by (metis nth_eq_iff_index_eq)
qed

lemma no_cycle_in_order:
  assumes d: "distinct xs" and sub: "r \<subseteq> {(a, b). appears_before xs a b}"
  shows "(v, v) \<notin> r\<^sup>+"
proof
  assume c: "(v, v) \<in> r\<^sup>+"
  have "(a, b) \<in> r\<^sup>+ \<Longrightarrow> appears_before xs a b" for a b
  proof (induction rule: trancl.induct)
    case (r_into_trancl a b)
    with sub show ?case by blast
  next
    case (trancl_into_trancl a b c)
    with sub have "appears_before xs b c" by blast
    with trancl_into_trancl.IH d show ?case by (blast intro: appears_before_trans)
  qed
  from this [OF c] appears_before_irrefl [OF d] show False by blast
qed

lemma cycle_among_unprocessed:
  assumes fin: "finite U" and ne: "U \<noteq> {}"
    and pred: "\<forall>z \<in> U. \<exists>y \<in> U. (y, z) \<in> r"
  shows "\<exists>x. (x, x) \<in> r\<^sup>+"
proof (rule ccontr)
  assume n: "\<not> (\<exists>x. (x, x) \<in> r\<^sup>+)"
  let ?r = "r \<inter> U \<times> U"
  have "?r\<^sup>+ \<subseteq> r\<^sup>+" by (rule trancl_mono_subset) simp
  with n have "acyclic ?r" unfolding acyclic_def by blast
  moreover from fin have "finite ?r" by simp
  ultimately have "wf ?r" by (intro finite_acyclic_wf)
  from ne obtain a where "a \<in> U" by blast
  with \<open>wf ?r\<close> obtain z where z: "z \<in> U" "\<And>y. (y, z) \<in> ?r \<Longrightarrow> y \<notin> U"
    by (rule wfE_min) blast
  from pred z(1) obtain y where "y \<in> U" "(y, z) \<in> r" by blast
  with z show False by blast
qed

lemma kahn_outer_final:
  assumes c: "counted g"
    and o: "kahn_outer (nvertex g) (vertex g) [] order vs"
  shows "length order \<le> nvertex g"
    and "length order = nvertex g \<Longrightarrow>
           distinct order \<and> set order = {1 .. int (nvertex g)}
           \<and> (\<forall>(u, w) \<in> arcs g. appears_before order u w) \<and> \<not> has_directed_cycle g"
    and "length order < nvertex g \<Longrightarrow> has_directed_cycle g"
proof -
  let ?n = "nvertex g" and ?vs = "vertex g"
  let ?V = "{1 .. int ?n}"
  from c have st: "\<forall>u \<in> ?V. set (targets ?vs u) \<subseteq> ?V"
    by (rule counted_targets)
  from o have
    di: "distinct order" and su: "set order \<subseteq> ?V" and
    cn: "\<forall>w \<in> ?V. indegree (vs ! nat w) = int (edge_count ?vs (?V - set order) w)" and
    ze: "\<forall>w \<in> ?V. (indegree (vs ! nat w) = 0) = (w \<in> set order)" and
    tp: "\<forall>j < length order. \<forall>u \<in> ?V. order ! j \<in> set (targets ?vs u) \<longrightarrow> u \<in> set (take j order)"
    unfolding kahn_outer_def append_Nil by blast+
  have cardV: "card ?V = ?n" by simp
  from di have cardo: "card (set order) = length order" by (rule distinct_card)
  from card_mono [OF _ su] cardV cardo show le: "length order \<le> ?n" by simp
  {
    assume full: "length order = ?n"
    have eq: "set order = ?V"
      by (rule card_subset_eq [OF _ su]) (simp_all add: cardo full)
    have before: "appears_before order u w" if "(u, w) \<in> arcs g" for u w
    proof -
      from that have u: "u \<in> ?V" and w: "w \<in> set (targets ?vs u)"
        unfolding arcs_def by auto
      with st eq have "w \<in> set order" by blast
      then obtain j where j: "j < length order" "order ! j = w"
        by (auto simp: in_set_conv_nth)
      with tp u w have "u \<in> set (take j order)" by blast
      then obtain i where "i < length (take j order)" "take j order ! i = u"
        by (auto simp: in_set_conv_nth)
      with j have "i < j" "order ! i = u" by simp_all
      with j show ?thesis unfolding appears_before_def by blast
    qed
    then have "arcs g \<subseteq> {(a, b). appears_before order a b}" by auto
    from no_cycle_in_order [OF di this] have "\<not> has_directed_cycle g"
      unfolding has_directed_cycle_def by blast
    with di eq before
    show "distinct order \<and> set order = ?V
           \<and> (\<forall>(u, w) \<in> arcs g. appears_before order u w) \<and> \<not> has_directed_cycle g"
      by blast
  }
  {
    assume less: "length order < ?n"
    let ?U = "?V - set order"
    have fin: "finite ?U" by simp
    have "?U \<noteq> {}"
    proof
      assume "?U = {}"
      then have "?V \<subseteq> set order" by blast
      from card_mono [OF _ this] cardV cardo less show False by simp
    qed
    moreover have "\<forall>z \<in> ?U. \<exists>y \<in> ?U. (y, z) \<in> arcs g"
    proof
      fix z assume z: "z \<in> ?U"
      with ze have "indegree (vs ! nat z) \<noteq> 0" by blast
      with cn z have "0 < edge_count ?vs ?U z" by auto
      from edge_count_positive [OF fin this] obtain y where "y \<in> ?U" "z \<in> set (targets ?vs y)"
        by blast
      then show "\<exists>y \<in> ?U. (y, z) \<in> arcs g"
        unfolding arcs_def by auto
    qed
    ultimately show "has_directed_cycle g"
      unfolding has_directed_cycle_def by (intro cycle_among_unprocessed [OF fin])
  }
qed

subsection \<open>Graphs built by \<open>add_edge\<close> are counted\<close>

lemma counted_sized_graph: "counted (sized_graph n True)"
proof -
  have e: "vertex (sized_graph n True) ! nat u = \<lparr>indegree = 0, outdegree = 0, neighbors = []\<rparr>"
    if "u \<in> {1 .. int n}" for u
  proof -
    from that have "nat u < n + 1" by auto
    then show ?thesis unfolding sized_graph_def by (simp del: replicate.simps)
  qed
  have t: "targets (vertex (sized_graph n True)) u = []" if "u \<in> {1 .. int n}" for u
    using e [OF that] by (simp add: targets_def)
  have c: "edge_count (vertex (sized_graph n True)) {1 .. int n} v = 0" for v
    unfolding edge_count_def using t by simp
  have n: "nvertex (sized_graph n True) = n" "length (vertex (sized_graph n True)) = n + 1"
    by (simp_all add: sized_graph_def)
  show ?thesis
    unfolding counted_def n
  proof (intro conjI ballI)
    show "n + 1 = n + 1" ..
  next
    fix u w assume "u \<in> {1 .. int n}" "w \<in> set (targets (vertex (sized_graph n True)) u)"
    with t show "1 \<le> w" "w \<le> int n" by simp_all
  next
    fix v assume "v \<in> {1 .. int n}"
    from e [OF this] show "indegree (vertex (sized_graph n True) ! nat v)
        = int (edge_count (vertex (sized_graph n True)) {1 .. int n} v)"
      by (simp only: c) simp
  qed
qed

lemma nth_update_fields:
  fixes xs :: "Vertex list"
  shows "neighbors (xs[j := (xs ! j)\<lparr>outdegree := d\<rparr>] ! i) = neighbors (xs ! i)"
    and "neighbors (xs[j := (xs ! j)\<lparr>indegree := d\<rparr>] ! i) = neighbors (xs ! i)"
    and "indegree (xs[j := (xs ! j)\<lparr>outdegree := d\<rparr>] ! i) = indegree (xs ! i)"
    and "indegree (xs[j := (xs ! j)\<lparr>neighbors := es\<rparr>] ! i) = indegree (xs ! i)"
proof -
  have *: "f (xs[j := g (xs ! j)] ! i) = f (xs ! i)" if "\<And>v. f (g v) = f v"
    for f :: "Vertex \<Rightarrow> 'b" and g
  proof (cases "j < length xs")
    case True
    with that show ?thesis by (cases "i = j") simp_all
  next
    case False
    then show ?thesis by (simp add: list_update_beyond)
  qed
  show "neighbors (xs[j := (xs ! j)\<lparr>outdegree := d\<rparr>] ! i) = neighbors (xs ! i)"
    using * [of neighbors "\<lambda>v. v\<lparr>outdegree := d\<rparr>"] by simp
  show "neighbors (xs[j := (xs ! j)\<lparr>indegree := d\<rparr>] ! i) = neighbors (xs ! i)"
    using * [of neighbors "\<lambda>v. v\<lparr>indegree := d\<rparr>"] by simp
  show "indegree (xs[j := (xs ! j)\<lparr>outdegree := d\<rparr>] ! i) = indegree (xs ! i)"
    using * [of indegree "\<lambda>v. v\<lparr>outdegree := d\<rparr>"] by simp
  show "indegree (xs[j := (xs ! j)\<lparr>neighbors := es\<rparr>] ! i) = indegree (xs ! i)"
    using * [of indegree "\<lambda>v. v\<lparr>neighbors := es\<rparr>"] by simp
qed

lemma add_edge_directed_effect:
  assumes len: "length (vertex g) = nvertex g + 1" and d: "directed g"
    and x: "x \<in> {1 .. int (nvertex g)}" and y: "y \<in> {1 .. int (nvertex g)}"
  shows "\<exists>g'. add_edge x y w g = Inr g' \<and> directed g' \<and> nvertex g' = nvertex g
           \<and> length (vertex g') = length (vertex g)
           \<and> (\<forall>u \<in> {1 .. int (nvertex g)}.
                 targets (vertex g') u = (if u = x then targets (vertex g) u @ [y] else targets (vertex g) u))
           \<and> (\<forall>v \<in> {1 .. int (nvertex g)}.
                 indegree (vertex g' ! nat v) = indegree (vertex g ! nat v) + (if v = y then 1 else 0))"
proof -
  let ?vs = "vertex g" and ?V = "{1 .. int (nvertex g)}"
  define e where "e = \<lparr>weight = w, to = y\<rparr>"
  define vs1 where "vs1 = ?vs[nat x := (?vs ! nat x)\<lparr>neighbors := neighbors (?vs ! nat x) @ [e]\<rparr>]"
  define vs2 where "vs2 = vs1[nat x := (vs1 ! nat x)\<lparr>outdegree := outdegree (vs1 ! nat x) + 1\<rparr>]"
  define vs3 where "vs3 = vs2[nat y := (vs2 ! nat y)\<lparr>indegree := indegree (vs2 ! nat y) + 1\<rparr>]"
  from len x y have b: "in_vector x ?vs" "in_vector y ?vs" "nat x < length ?vs" "nat y < length ?vs"
    by (auto simp: in_vector_def)
  have l: "length vs1 = length ?vs" "length vs2 = length ?vs" "length vs3 = length ?vs"
    by (simp_all add: vs1_def vs2_def vs3_def)
  have r: "add_edge x y w g = Inr (g\<lparr>vertex := vs3\<rparr>)"
    using b d by (simp add: add_edge_def Let_def in_vector_def vs1_def vs2_def vs3_def e_def)
  have nb: "neighbors (vs3 ! i) = (if i = nat x then neighbors (?vs ! i) @ [e] else neighbors (?vs ! i))"
    if "i < length ?vs" for i
  proof -
    from that b have "neighbors (vs1 ! i) = (if i = nat x then neighbors (?vs ! i) @ [e] else neighbors (?vs ! i))"
      unfolding vs1_def by (cases "i = nat x") simp_all
    moreover have "neighbors (vs2 ! i) = neighbors (vs1 ! i)"
      unfolding vs2_def by (rule nth_update_fields)
    moreover have "neighbors (vs3 ! i) = neighbors (vs2 ! i)"
      unfolding vs3_def by (rule nth_update_fields)
    ultimately show ?thesis by simp
  qed
  have ind: "indegree (vs3 ! i) = indegree (?vs ! i) + (if i = nat y then 1 else 0)"
    if "i < length ?vs" for i
  proof -
    have "indegree (vs1 ! i) = indegree (?vs ! i)"
      unfolding vs1_def by (rule nth_update_fields)
    moreover have "indegree (vs2 ! i) = indegree (vs1 ! i)"
      unfolding vs2_def by (rule nth_update_fields)
    moreover from that l have "indegree (vs3 ! i) = indegree (vs2 ! i) + (if i = nat y then 1 else 0)"
      unfolding vs3_def by (cases "i = nat y") simp_all
    ultimately show ?thesis by simp
  qed
  have tg: "targets vs3 u = (if u = x then targets ?vs u @ [y] else targets ?vs u)" if "u \<in> ?V" for u
  proof -
    from that len have i: "nat u < length ?vs" by auto
    from that x have "nat u = nat x \<longleftrightarrow> u = x" by auto
    with nb [OF i] show ?thesis by (simp add: targets_def e_def)
  qed
  have ig: "indegree (vs3 ! nat v) = indegree (?vs ! nat v) + (if v = y then 1 else 0)" if "v \<in> ?V" for v
  proof -
    from that len have i: "nat v < length ?vs" by auto
    from that y have "nat v = nat y \<longleftrightarrow> v = y" by auto
    with ind [OF i] show ?thesis by simp
  qed
  from r d l tg ig show ?thesis by simp
qed

lemma edge_count_add:
  assumes "finite U" and "x \<in> U"
    and "\<forall>u \<in> U. targets vs' u = (if u = x then targets vs u @ [y] else targets vs u)"
  shows "edge_count vs' U v = edge_count vs U v + (if v = y then 1 else 0)"
proof -
  have "edge_count vs' U v = (\<Sum>u \<in> U. count_list (targets vs u) v + (if u = x then (if v = y then 1 else 0) else 0))"
    unfolding edge_count_def using assms(3) by (intro sum.cong) auto
  also have "\<dots> = edge_count vs U v + (\<Sum>u \<in> U. if u = x then (if v = y then 1 else 0) else 0)"
    unfolding edge_count_def by (simp add: sum.distrib)
  also have "(\<Sum>u \<in> U. if u = x then (if v = y then 1 else 0) else 0) = (if v = y then 1 else (0::nat))"
    using assms(1,2) by (simp add: sum.delta)
  finally show ?thesis .
qed

lemma add_edge_counted:
  assumes c: "counted g" and d: "directed g"
    and x: "x \<in> {1 .. int (nvertex g)}" and y: "y \<in> {1 .. int (nvertex g)}"
  shows "\<exists>g'. add_edge x y w g = Inr g' \<and> counted g' \<and> directed g' \<and> nvertex g' = nvertex g"
proof -
  let ?V = "{1 .. int (nvertex g)}"
  from c have len: "length (vertex g) = nvertex g + 1"
    and cn: "\<forall>v \<in> ?V. indegree (vertex g ! nat v) = int (edge_count (vertex g) ?V v)"
    unfolding counted_def by blast+
  note st = counted_targets [OF c]
  from add_edge_directed_effect [OF len d x y, of w] obtain g' where g':
    "add_edge x y w g = Inr g' \<and> directed g' \<and> nvertex g' = nvertex g
       \<and> length (vertex g') = length (vertex g)
       \<and> (\<forall>u \<in> ?V. targets (vertex g') u = (if u = x then targets (vertex g) u @ [y] else targets (vertex g) u))
       \<and> (\<forall>v \<in> ?V. indegree (vertex g' ! nat v) = indegree (vertex g ! nat v) + (if v = y then 1 else 0))"
    ..
  note r = g' [THEN conjunct1]
    and d' = g' [THEN conjunct2, THEN conjunct1]
    and n' = g' [THEN conjunct2, THEN conjunct2, THEN conjunct1]
    and len' = g' [THEN conjunct2, THEN conjunct2, THEN conjunct2, THEN conjunct1]
    and tg = g' [THEN conjunct2, THEN conjunct2, THEN conjunct2, THEN conjunct2, THEN conjunct1]
    and ind = g' [THEN conjunct2, THEN conjunct2, THEN conjunct2, THEN conjunct2, THEN conjunct2]
  have ec: "edge_count (vertex g') ?V v = edge_count (vertex g) ?V v + (if v = y then 1 else 0)" for v
    by (rule edge_count_add [OF _ x tg]) simp
  have A: "\<forall>u \<in> ?V. \<forall>w \<in> set (targets (vertex g') u). 1 \<le> w \<and> w \<le> int (nvertex g)"
  proof (intro ballI)
    fix u w assume u: "u \<in> ?V" and w: "w \<in> set (targets (vertex g') u)"
    with tg have "w \<in> set (targets (vertex g) u) \<or> w = y" by (auto split: if_splits)
    moreover from st u have "set (targets (vertex g) u) \<subseteq> ?V" by blast
    ultimately have "w \<in> ?V" using y by blast
    then show "1 \<le> w \<and> w \<le> int (nvertex g)" by simp
  qed
  have B: "\<forall>v \<in> ?V. indegree (vertex g' ! nat v) = int (edge_count (vertex g') ?V v)"
  proof
    fix v assume v: "v \<in> ?V"
    from ind v have a: "indegree (vertex g' ! nat v) = indegree (vertex g ! nat v) + (if v = y then 1 else 0)"
      by blast
    from cn v have b: "indegree (vertex g ! nat v) = int (edge_count (vertex g) ?V v)"
      by blast
    show "indegree (vertex g' ! nat v) = int (edge_count (vertex g') ?V v)"
      unfolding a b ec by simp
  qed
  have "counted g'"
    unfolding counted_def n' len' using len A B by (intro conjI)
  with r d' n' show ?thesis by blast
qed

text \<open>
  Every directed graph read into storage of \<open>n + 1\<close> vertices from pairs with both
  endpoints in \<open>[1, n]\<close> is counted.
\<close>

lemma read_graph_counted:
  assumes "counted g" and "directed g"
    and "\<forall>(x, y) \<in> set ps. x \<in> {1 .. int (nvertex g)} \<and> y \<in> {1 .. int (nvertex g)}"
  shows "\<exists>g'. read_graph ps g = Inr g' \<and> counted g' \<and> directed g' \<and> nvertex g' = nvertex g"
  using assms
proof (induction ps arbitrary: g)
  case Nil
  then show ?case by simp
next
  case (Cons p ps)
  obtain x y where p: "p = (x, y)" by (cases p)
  with Cons.prems(3) have xy: "x \<in> {1 .. int (nvertex g)}" "y \<in> {1 .. int (nvertex g)}"
    by auto
  from add_edge_counted [OF Cons.prems(1,2) xy, of 0] obtain g1 where
    g1: "add_edge x y 0 g = Inr g1" "counted g1" "directed g1" "nvertex g1 = nvertex g"
    by blast
  from Cons.prems(3) g1(4)
  have "\<forall>(x, y) \<in> set ps. x \<in> {1 .. int (nvertex g1)} \<and> y \<in> {1 .. int (nvertex g1)}"
    by simp
  from Cons.IH [OF g1(2,3) this] g1 p show ?case by simp
qed

subsection \<open>The cycle check and the processing order\<close>

lemma has_cycle_counted:
  assumes d: "directed g" and c: "counted g"
  shows "\<exists>order vs g'. kahn (nvertex g) (vertex g) = Inr (length order, order, vs)
           \<and> kahn_outer (nvertex g) (vertex g) [] order vs
           \<and> has_cycle g = Inr (length order \<noteq> nvertex g, g')"
proof -
  from kahn_counted [OF c] obtain order vs where
    k: "kahn (nvertex g) (vertex g) = Inr (length order, order, vs)" and
    o: "kahn_outer (nvertex g) (vertex g) [] order vs"
    by blast
  have "\<exists>g'. has_cycle g = Inr (length order \<noteq> nvertex g, g')"
  proof (cases "0 < nvertex g")
    case True
    have u: "directed (unvisit g) = directed g" "nvertex (unvisit g) = nvertex g"
      "vertex (unvisit g) = vertex g"
      by (simp_all add: unvisit_def reset_discovered_def reset_processed_def)
    from True d have "has_cycle g = detect_directed_cycle (unvisit g)"
      unfolding has_cycle_def Let_def u by simp
    with k show ?thesis by (simp add: detect_directed_cycle_def u)
  next
    case False
    with kahn_outer_final(1) [OF c o] have "length order = nvertex g" by simp
    with False show ?thesis by (simp add: has_cycle_def)
  qed
  with k o show ?thesis by blast
qed

text \<open>
  Claim C5. On a directed graph before its first cycle check (read by \<open>read_graph\<close>
  from pairs with endpoints in \<open>[1, n]\<close> into storage of \<open>n + 1\<close> vertices, or in
  general any counted graph), \<open>has_cycle\<close> returns, and returns true exactly when the
  graph has a directed cycle; the elimination never processes more than \<open>nvertex\<close>
  vertices, and processes fewer exactly when there is a cycle. It returns false on
  scenario A and true on scenario B.
\<close>

theorem has_cycle_first_call:
  "((\<forall>(x, y) \<in> set ps. x \<in> {1 .. int n} \<and> y \<in> {1 .. int n}) \<longrightarrow>
      (\<exists>g g'. read_graph ps (sized_graph n True) = Inr g
         \<and> has_cycle g = Inr (has_directed_cycle g, g')))
   \<and> (directed g \<and> counted g \<longrightarrow>
      (\<exists>g'. has_cycle g = Inr (has_directed_cycle g, g'))
      \<and> (\<exists>np order vs. kahn (nvertex g) (vertex g) = Inr (np, order, vs)
            \<and> np \<le> nvertex g \<and> (has_directed_cycle g \<longleftrightarrow> np < nvertex g)))
   \<and> map_sum id fst (and_then scenario_A has_cycle) = Inr False
   \<and> map_sum id fst (and_then scenario_B has_cycle) = Inr True"
proof -
  have main: "(\<exists>g'. has_cycle g = Inr (has_directed_cycle g, g'))
      \<and> (\<exists>np order vs. kahn (nvertex g) (vertex g) = Inr (np, order, vs)
            \<and> np \<le> nvertex g \<and> (has_directed_cycle g \<longleftrightarrow> np < nvertex g))"
    if d: "directed g" and c: "counted g" for g
  proof -
    from has_cycle_counted [OF d c] obtain order vs g' where
      k: "kahn (nvertex g) (vertex g) = Inr (length order, order, vs)" and
      o: "kahn_outer (nvertex g) (vertex g) [] order vs" and
      h: "has_cycle g = Inr (length order \<noteq> nvertex g, g')"
      by blast
    note f = kahn_outer_final [OF c o]
    have e: "has_directed_cycle g \<longleftrightarrow> length order < nvertex g"
    proof (cases "length order = nvertex g")
      case True
      with f(2) show ?thesis by simp
    next
      case False
      with f(1) have "length order < nvertex g" by simp
      with f(3) show ?thesis by simp
    qed
    with f(1) have "(length order \<noteq> nvertex g) = has_directed_cycle g" by auto
    with h k f(1) e show ?thesis by auto
  qed
  have built: "\<exists>g g'. read_graph ps (sized_graph n True) = Inr g
         \<and> has_cycle g = Inr (has_directed_cycle g, g')"
    if p: "\<forall>(x, y) \<in> set ps. x \<in> {1 .. int n} \<and> y \<in> {1 .. int n}"
  proof -
    have "nvertex (sized_graph n True) = n" "directed (sized_graph n True)"
      by (simp_all add: sized_graph_def)
    with read_graph_counted [OF counted_sized_graph, of n ps] p obtain g where
      "read_graph ps (sized_graph n True) = Inr g" "counted g" "directed g"
      by auto
    with main [of g] show ?thesis by blast
  qed
  have a: "map_sum id fst (and_then scenario_A has_cycle) = Inr False"
    unfolding scenario_A_def by code_simp
  have b: "map_sum id fst (and_then scenario_B has_cycle) = Inr True"
    unfolding scenario_B_def by code_simp
  from main built a b show ?thesis by blast
qed

theorem has_cycle_first_call_witness:
  "list_all (\<lambda>(x, y). x \<in> {1 .. int 3} \<and> y \<in> {1 .. int 3}) [(1, 2), (2, 3), (3, 1)]
   \<and> (\<exists>g g'. read_graph [(1, 2), (2, 3), (3, 1)] (sized_graph 3 True) = Inr g
         \<and> has_cycle g = Inr (has_directed_cycle g, g'))
   \<and> directed directed_triangle \<and> counted directed_triangle
   \<and> map_sum id fst (has_cycle directed_triangle) = Inr True
   \<and> has_directed_cycle directed_triangle
   \<and> directed directed_path \<and> counted directed_path
   \<and> map_sum id fst (has_cycle directed_path) = Inr False
   \<and> \<not> has_directed_cycle directed_path"
proof -
  have t: "directed directed_triangle" "counted directed_triangle"
    "map_sum id fst (has_cycle directed_triangle) = Inr True"
    by code_simp+
  have p: "directed directed_path" "counted directed_path"
    "map_sum id fst (has_cycle directed_path) = Inr False"
    by code_simp+
  from has_cycle_first_call [of "[]" 0 directed_triangle, THEN conjunct2, THEN conjunct1] t
  have "has_directed_cycle directed_triangle" by auto
  moreover
  from has_cycle_first_call [of "[]" 0 directed_path, THEN conjunct2, THEN conjunct1] p
  have "\<not> has_directed_cycle directed_path" by auto
  moreover
  have l: "list_all (\<lambda>(x, y). x \<in> {1 .. int 3} \<and> y \<in> {1 .. int 3}) [(1, 2), (2, 3), (3, 1)]"
    by simp
  from has_cycle_first_call [of "[(1, 2), (2, 3), (3, 1)]" 3 directed_path, THEN conjunct1] l
  have "\<exists>g g'. read_graph [(1, 2), (2, 3), (3, 1)] (sized_graph 3 True) = Inr g
         \<and> has_cycle g = Inr (has_directed_cycle g, g')"
    by (simp add: list_all_iff)
  ultimately show ?thesis using t p l by blast
qed

text \<open>
  The part of claim C7 that holds. When the first cycle check of a directed graph (a
  counted graph) returns false, the order in which the elimination pops the vertices
  lists every vertex of \<open>1 .. nvertex\<close> once, and for every edge \<open>(u, w)\<close> of the graph
  \<open>u\<close> appears before \<open>w\<close>. On scenario A the order is \<open>1, 2, 3\<close>.
\<close>

theorem processing_order_topological:
  "(directed g \<and> counted g \<and> has_cycle g = Inr (False, g') \<longrightarrow>
      (\<exists>order. processing_order g = Inr order \<and> distinct order
         \<and> set order = {1 .. int (nvertex g)}
         \<and> (\<forall>(u, w) \<in> arcs g. appears_before order u w)))
   \<and> and_then scenario_A processing_order = Inr [1, 2, 3]"
proof
  show "directed g \<and> counted g \<and> has_cycle g = Inr (False, g') \<longrightarrow>
      (\<exists>order. processing_order g = Inr order \<and> distinct order
         \<and> set order = {1 .. int (nvertex g)}
         \<and> (\<forall>(u, w) \<in> arcs g. appears_before order u w))"
  proof (intro impI, elim conjE)
    assume d: "directed g" and c: "counted g" and h: "has_cycle g = Inr (False, g')"
    from has_cycle_counted [OF d c] obtain order vs g'' where
      k: "kahn (nvertex g) (vertex g) = Inr (length order, order, vs)" and
      o: "kahn_outer (nvertex g) (vertex g) [] order vs" and
      h': "has_cycle g = Inr (length order \<noteq> nvertex g, g'')"
      by blast
    from h h' have "length order = nvertex g" by simp
    from kahn_outer_final(2) [OF c o this] k show
      "\<exists>order. processing_order g = Inr order \<and> distinct order
         \<and> set order = {1 .. int (nvertex g)}
         \<and> (\<forall>(u, w) \<in> arcs g. appears_before order u w)"
      by (intro exI [of _ order]) (simp add: processing_order_def)
  qed
next
  show "and_then scenario_A processing_order = Inr [1, 2, 3]"
    unfolding scenario_A_def by code_simp
qed

theorem processing_order_topological_witness:
  "directed directed_path \<and> counted directed_path
   \<and> has_cycle directed_path = Inr (False, directed_path
        \<lparr>vertex := [\<lparr>indegree = 0, outdegree = 0, neighbors = []\<rparr>,
                    \<lparr>indegree = 0, outdegree = 1, neighbors = [\<lparr>weight = 0, to = 2\<rparr>]\<rparr>,
                    \<lparr>indegree = 0, outdegree = 1, neighbors = [\<lparr>weight = 0, to = 3\<rparr>]\<rparr>,
                    \<lparr>indegree = 0, outdegree = 0, neighbors = []\<rparr>],
         trail := [ResetDiscovered, ResetProcessed]\<rparr>)
   \<and> processing_order directed_path = Inr [1, 2, 3]
   \<and> (\<exists>order. processing_order directed_path = Inr order \<and> distinct order
         \<and> set order = {1 .. int (nvertex directed_path)}
         \<and> (\<forall>(u, w) \<in> arcs directed_path. appears_before order u w))"
proof -
  have p: "directed directed_path" "counted directed_path"
    "has_cycle directed_path = Inr (False, directed_path
        \<lparr>vertex := [\<lparr>indegree = 0, outdegree = 0, neighbors = []\<rparr>,
                    \<lparr>indegree = 0, outdegree = 1, neighbors = [\<lparr>weight = 0, to = 2\<rparr>]\<rparr>,
                    \<lparr>indegree = 0, outdegree = 1, neighbors = [\<lparr>weight = 0, to = 3\<rparr>]\<rparr>,
                    \<lparr>indegree = 0, outdegree = 0, neighbors = []\<rparr>],
         trail := [ResetDiscovered, ResetProcessed]\<rparr>)"
    "processing_order directed_path = Inr [1, 2, 3]"
    by code_simp+
  from processing_order_topological [THEN conjunct1, rule_format, OF conjI [OF p(1) conjI [OF p(2) p(3)]]] p
  show ?thesis by blast
qed


subsection \<open>The processing order of a later check: claim C7\<close>

lemma not_before: "\<not> appears_before [3, 2, 1 :: int] 1 2"
proof
  assume "appears_before [3, 2, 1 :: int] 1 2"
  then obtain i j where ij: "i < j" "j < 3" "[3, 2, 1 :: int] ! i = 1" "[3, 2, 1 :: int] ! j = 2"
    unfolding appears_before_def by auto
  from ij(1,2) have "i = 0 \<or> i = 1" by auto
  with ij(3) show False by auto
qed

text \<open>
  Claim C7 says that whenever the directed cycle check detects no cycle, the order of
  the pops is a topological order. The check leaves every counter it decremented as it
  is, so only the first check starts from the numbers of edges. On scenario A the first
  call returns false and pops 1, 2, 3; a second call also returns false and pops
  3, 2, 1, with the edge from 1 to 2 in the graph and 1 after 2 in the order.
\<close>

theorem processing_order_second_call:
  "scenario_A = Inr directed_path
   \<and> has_cycle directed_path = Inr (False, directed_path_checked)
   \<and> processing_order directed_path = Inr [1, 2, 3]
   \<and> map_sum id fst (has_cycle directed_path_checked) = Inr False
   \<and> processing_order directed_path_checked = Inr [3, 2, 1]
   \<and> (1, 2) \<in> arcs directed_path_checked
   \<and> \<not> appears_before [3, 2, 1 :: int] 1 2"
proof (intro conjI)
  show "scenario_A = Inr directed_path"
    unfolding scenario_A_def by code_simp
  show "has_cycle directed_path = Inr (False, directed_path_checked)"
    by code_simp
  show "processing_order directed_path = Inr [1, 2, 3]"
    by code_simp
  show "map_sum id fst (has_cycle directed_path_checked) = Inr False"
    by code_simp
  show "processing_order directed_path_checked = Inr [3, 2, 1]"
    by code_simp
  show "(1, 2) \<in> arcs directed_path_checked"
    by (simp add: arcs_def targets_def directed_path_checked_def directed_path_def sized_graph_def)
  show "\<not> appears_before [3, 2, 1 :: int] 1 2"
    by (rule not_before)
qed

end
